theory Spec2Isabelle
  imports Complex_Main "HOL-Library.Sublist"
begin

section \<open>Python strings\<close>

text \<open>
  A Python \<^verbatim>\<open>str\<close> is a sequence of Unicode code points; a code point is a natural
  number. \<open>ascii\<close> turns an ASCII literal into such a sequence.
\<close>

type_synonym pystr = "nat list"

definition cp :: "char \<Rightarrow> nat" where
  "cp c = of_char c"

definition ascii :: "string \<Rightarrow> pystr" where
  "ascii s = map cp s"

text \<open>
  The white space of \<^verbatim>\<open>str.strip()\<close> and of \<^verbatim>\<open>\s\<close> in a \<^verbatim>\<open>str\<close> pattern: TAB to CR,
  FS to US, SPACE, NEL, NBSP, U+1680, U+2000 to U+200A, U+2028, U+2029, U+202F, U+205F,
  U+3000.
\<close>

definition isspace :: "nat \<Rightarrow> bool" where
  "isspace c \<longleftrightarrow>
     (9 \<le> c \<and> c \<le> 13) \<or> (28 \<le> c \<and> c \<le> 32) \<or> c = 133 \<or> c = 160 \<or> c = 5760 \<or>
     (8192 \<le> c \<and> c \<le> 8202) \<or> c = 8232 \<or> c = 8233 \<or> c = 8239 \<or> c = 8287 \<or> c = 12288"

text \<open>
  \<^verbatim>\<open>\d\<close> in a \<^verbatim>\<open>str\<close> pattern accepts the ASCII digits and the decimal digits of the other
  scripts (Unicode category Nd). That table belongs to the Python runtime, not to this
  repository: it is the parameter \<open>nd\<close>, consulted for code points from 128 on.
\<close>

definition isdecimal :: "(nat \<Rightarrow> bool) \<Rightarrow> nat \<Rightarrow> bool" where
  "isdecimal nd c \<longleftrightarrow> (48 \<le> c \<and> c \<le> 57) \<or> (128 \<le> c \<and> nd c)"


section \<open>The fragment of \<^verbatim>\<open>re\<close> the repository uses\<close>

text \<open>
  Every pattern of the source is a sequence of items; an item is a character class,
  taken once or under \<^verbatim>\<open>+\<close> or \<^verbatim>\<open>*\<close>, and possibly a capture group. There is no alternation,
  no nested repetition and no anchor, so a match at a position depends only on the text
  from that position on.
\<close>

datatype cls = Lit nat | Space | Digit | Not "nat list"

datatype quant = One | Plus | Star

datatype item = I cls quant | G cls quant

fun cls_ok :: "(nat \<Rightarrow> bool) \<Rightarrow> cls \<Rightarrow> nat \<Rightarrow> bool" where
  "cls_ok nd (Lit a) c = (c = a)"
| "cls_ok nd Space c = isspace c"
| "cls_ok nd Digit c = isdecimal nd c"
| "cls_ok nd (Not as) c = (c \<notin> set as)"

fun item_cls :: "item \<Rightarrow> cls" where
  "item_cls (I k q) = k"
| "item_cls (G k q) = k"

fun item_quant :: "item \<Rightarrow> quant" where
  "item_quant (I k q) = q"
| "item_quant (G k q) = q"

text \<open>
  The lengths an item may take at the head of \<open>s\<close>, in the order the backtracking matcher
  tries them: a repetition is greedy, longest first.
\<close>

definition lens :: "(nat \<Rightarrow> bool) \<Rightarrow> item \<Rightarrow> pystr \<Rightarrow> nat list" where
  "lens nd it s =
     (let n = length (takeWhile (cls_ok nd (item_cls it)) s)
      in case item_quant it of
           One \<Rightarrow> (if 0 < n then [1] else [])
         | Plus \<Rightarrow> rev [1..<Suc n]
         | Star \<Rightarrow> rev [0..<Suc n])"

fun first_match :: "'a option list \<Rightarrow> 'a option" where
  "first_match [] = None"
| "first_match (None # rs) = first_match rs"
| "first_match (Some r # rs) = Some r"

fun attach :: "item \<Rightarrow> pystr \<Rightarrow> (pystr list \<times> pystr) option \<Rightarrow> (pystr list \<times> pystr) option" where
  "attach it seg None = None"
| "attach (I k q) seg (Some (gs, rest)) = Some (gs, rest)"
| "attach (G k q) seg (Some (gs, rest)) = Some (seg # gs, rest)"

text \<open>
  \<open>rmatch nd p s\<close> matches the pattern \<open>p\<close> at the head of \<open>s\<close>: the captured groups in
  order and the text left after the match, or \<open>None\<close>.
\<close>

fun rmatch :: "(nat \<Rightarrow> bool) \<Rightarrow> item list \<Rightarrow> pystr \<Rightarrow> (pystr list \<times> pystr) option" where
  "rmatch nd [] s = Some ([], s)"
| "rmatch nd (it # its) s =
     first_match (map (\<lambda>k. attach it (take k s) (rmatch nd its (drop k s))) (lens nd it s))"

text \<open>A replacement template: literal text and references \<^verbatim>\<open>\1\<close>, \<^verbatim>\<open>\2\<close> to the groups.\<close>

datatype rpart = RText pystr | RGroup nat

fun expand :: "rpart list \<Rightarrow> pystr list \<Rightarrow> pystr" where
  "expand [] gs = []"
| "expand (RText t # rs) gs = t @ expand rs gs"
| "expand (RGroup n # rs) gs = (if 0 < n \<and> n \<le> length gs then gs ! (n - 1) else []) @ expand rs gs"

text \<open>
  \<^verbatim>\<open>re.sub(pattern, repl, text)\<close>: the text is scanned from the left; at a position where
  the pattern matches, the replacement is written and the scan goes on after the match;
  elsewhere the character is copied. \<open>skip\<close> counts the characters of the last match still
  to be passed over. An empty match writes the replacement and copies the character.
\<close>

fun sub_scan :: "(nat \<Rightarrow> bool) \<Rightarrow> item list \<Rightarrow> rpart list \<Rightarrow> nat \<Rightarrow> pystr \<Rightarrow> pystr" where
  "sub_scan nd p r skip [] =
     (case skip of
        0 \<Rightarrow> (case rmatch nd p [] of None \<Rightarrow> [] | Some (gs, rest) \<Rightarrow> expand r gs)
      | Suc k \<Rightarrow> [])"
| "sub_scan nd p r (Suc k) (c # cs) = sub_scan nd p r k cs"
| "sub_scan nd p r 0 (c # cs) =
     (case rmatch nd p (c # cs) of
        None \<Rightarrow> c # sub_scan nd p r 0 cs
      | Some (gs, rest) \<Rightarrow>
          (let n = length (c # cs) - length rest
           in if n = 0 then expand r gs @ c # sub_scan nd p r 0 cs
              else expand r gs @ sub_scan nd p r (n - 1) cs))"

definition re_sub :: "(nat \<Rightarrow> bool) \<Rightarrow> item list \<Rightarrow> rpart list \<Rightarrow> pystr \<Rightarrow> pystr" where
  "re_sub nd p r s = sub_scan nd p r 0 s"

text \<open>
  \<^verbatim>\<open>text.replace(old, new)\<close> for a non-empty \<open>old\<close>: the occurrences of \<open>old\<close> are replaced
  from the left, without overlap. (Every call of the source has a non-empty \<open>old\<close>; for the
  empty one Python writes \<open>new\<close> before every character and at the end.)
\<close>

fun replace_scan :: "pystr \<Rightarrow> pystr \<Rightarrow> nat \<Rightarrow> pystr \<Rightarrow> pystr" where
  "replace_scan old new skip [] = []"
| "replace_scan old new (Suc k) (c # cs) = replace_scan old new k cs"
| "replace_scan old new 0 (c # cs) =
     (if prefix old (c # cs) then new @ replace_scan old new (length old - 1) cs
      else c # replace_scan old new 0 cs)"

definition str_replace :: "pystr \<Rightarrow> pystr \<Rightarrow> pystr \<Rightarrow> pystr" where
  "str_replace old new s =
     (if old = [] then concat (map (\<lambda>c. new @ [c]) s) @ new else replace_scan old new 0 s)"

section \<open>The text reformatters\<close>

text \<open>
  \<^verbatim>\<open>process_markdown\<close> of \<^verbatim>\<open>assistant_handler.py\<close>. The patterns, in the order of the source:
  \<^verbatim>\<open> +\<close>, \<^verbatim>\<open>\s+:\<close>, \<^verbatim>\<open>(\d+)\.\s+\*\*\s+([^*]+)\s+\*\*\s*:\<close>, \<^verbatim>\<open>###\s+([^#\n]+)\<close>,
  \<^verbatim>\<open>(\d+)\.\s+([^:]+):\<close>, \<^verbatim>\<open>\*\*([^*]+)\*\*\<close>; then the two literal replacements.
\<close>

definition pm_spaces :: "item list" where
  "pm_spaces = [I (Lit (cp CHR '' '')) Plus]"

definition space_colon :: "item list" where
  "space_colon = [I Space Plus, I (Lit (cp CHR '':'')) One]"

definition pm_numbered_bold :: "item list" where
  "pm_numbered_bold =
     [G Digit Plus, I (Lit (cp CHR ''.'')) One, I Space Plus,
      I (Lit (cp CHR ''*'')) One, I (Lit (cp CHR ''*'')) One, I Space Plus,
      G (Not [cp CHR ''*'']) Plus, I Space Plus,
      I (Lit (cp CHR ''*'')) One, I (Lit (cp CHR ''*'')) One, I Space Star,
      I (Lit (cp CHR '':'')) One]"

definition pm_heading :: "item list" where
  "pm_heading =
     [I (Lit (cp CHR ''#'')) One, I (Lit (cp CHR ''#'')) One, I (Lit (cp CHR ''#'')) One,
      I Space Plus, G (Not [cp CHR ''#'', 10]) Plus]"

definition pm_numbered :: "item list" where
  "pm_numbered =
     [G Digit Plus, I (Lit (cp CHR ''.'')) One, I Space Plus, G (Not [cp CHR '':'']) Plus,
      I (Lit (cp CHR '':'')) One]"

definition bold :: "item list" where
  "bold =
     [I (Lit (cp CHR ''*'')) One, I (Lit (cp CHR ''*'')) One, G (Not [cp CHR ''*'']) Plus,
      I (Lit (cp CHR ''*'')) One, I (Lit (cp CHR ''*'')) One]"

definition process_markdown :: "(nat \<Rightarrow> bool) \<Rightarrow> pystr \<Rightarrow> pystr" where
  "process_markdown nd text0 =
     (let text1 = re_sub nd pm_spaces [RText (ascii '' '')] text0;
          text2 = re_sub nd space_colon [RText (ascii '':'')] text1;
          text3 = re_sub nd pm_numbered_bold
                    [RGroup 1, RText (ascii ''. *''), RGroup 2, RText (ascii ''*:'')] text2;
          text4 = re_sub nd pm_heading [RText (ascii ''*''), RGroup 1, RText (ascii ''*'')] text3;
          text5 = re_sub nd pm_numbered
                    [RGroup 1, RText (ascii ''. *''), RGroup 2, RText (ascii ''*:'')] text4;
          text6 = re_sub nd bold [RText (ascii ''*''), RGroup 1, RText (ascii ''*'')] text5
      in str_replace (ascii ''* *'') (ascii ''*'') (str_replace (ascii ''**'') (ascii ''*'') text6))"

text \<open>
  \<^verbatim>\<open>ConversationManager.prepare_text_for_html\<close>. The patterns, in the order of the source:
  \<^verbatim>\<open>###\s+\<close>, \<^verbatim>\<open>\*\*\s+([^*]+)\s+\*\*\<close>, \<^verbatim>\<open>\*\*([^*]+)\*\*\<close>, \<^verbatim>\<open>\s+:\<close>, the bullet U+2022
  followed by \<^verbatim>\<open>\s+\<close>, \<^verbatim>\<open>\n\s*-\s+\<close>, \<^verbatim>\<open>(\d+)\.\s+<b>([^<]+)</b>:\<close>, the bullet again; then
  the four literal replacements of escaped tags.
\<close>

definition bullet :: nat where
  "bullet = 8226"

definition html_heading :: "item list" where
  "html_heading =
     [I (Lit (cp CHR ''#'')) One, I (Lit (cp CHR ''#'')) One, I (Lit (cp CHR ''#'')) One,
      I Space Plus]"

definition html_bold_spaced :: "item list" where
  "html_bold_spaced =
     [I (Lit (cp CHR ''*'')) One, I (Lit (cp CHR ''*'')) One, I Space Plus,
      G (Not [cp CHR ''*'']) Plus, I Space Plus,
      I (Lit (cp CHR ''*'')) One, I (Lit (cp CHR ''*'')) One]"

definition html_bullet :: "item list" where
  "html_bullet = [I (Lit bullet) One, I Space Plus]"

definition html_dash :: "item list" where
  "html_dash = [I (Lit 10) One, I Space Star, I (Lit (cp CHR ''-'')) One, I Space Plus]"

definition html_numbered :: "item list" where
  "html_numbered =
     [G Digit Plus, I (Lit (cp CHR ''.'')) One, I Space Plus,
      I (Lit (cp CHR ''<'')) One, I (Lit (cp CHR ''b'')) One, I (Lit (cp CHR ''>'')) One,
      G (Not [cp CHR ''<'']) Plus,
      I (Lit (cp CHR ''<'')) One, I (Lit (cp CHR ''/'')) One, I (Lit (cp CHR ''b'')) One,
      I (Lit (cp CHR ''>'')) One, I (Lit (cp CHR '':'')) One]"

definition unescape_tags :: "pystr \<Rightarrow> pystr" where
  "unescape_tags text0 =
     (let text1 = str_replace (ascii ''&lt;b&gt;'') (ascii ''<b>'') text0;
          text2 = str_replace (ascii ''&lt;/b&gt;'') (ascii ''</b>'') text1;
          text3 = str_replace (ascii ''&lt;i&gt;'') (ascii ''<i>'') text2
      in str_replace (ascii ''&lt;/i&gt;'') (ascii ''</i>'') text3)"

definition prepare_text_for_html :: "(nat \<Rightarrow> bool) \<Rightarrow> pystr \<Rightarrow> pystr" where
  "prepare_text_for_html nd text0 =
     (let text1 = re_sub nd html_heading [] text0;
          text2 = re_sub nd html_bold_spaced
                    [RText (ascii ''<b>''), RGroup 1, RText (ascii ''</b>'')] text1;
          text3 = re_sub nd bold [RText (ascii ''<b>''), RGroup 1, RText (ascii ''</b>'')] text2;
          text4 = re_sub nd space_colon [RText (ascii '':'')] text3;
          text5 = re_sub nd html_bullet [RText [bullet, cp CHR '' '']] text4;
          text6 = re_sub nd html_dash [RText [10, bullet, cp CHR '' '']] text5;
          text7 = re_sub nd html_numbered
                    [RGroup 1, RText (ascii ''. <b>''), RGroup 2, RText (ascii ''</b>:'')] text6;
          text8 = re_sub nd html_bullet [RText [bullet, cp CHR '' '']] text7
      in unescape_tags text8)"

section \<open>The assistant session client (\<^verbatim>\<open>AssistantHandler\<close>)\<close>

subsection \<open>State, environment and control flow\<close>

text \<open>
  A Python exception is either caught by \<^verbatim>\<open>except Exception\<close> or not (a \<^verbatim>\<open>BaseException\<close>
  such as \<^verbatim>\<open>asyncio.CancelledError\<close>); it carries the text of \<^verbatim>\<open>str(e)\<close>.
\<close>

datatype exn = Exception pystr | BaseException pystr

datatype content = TextContent pystr | ImageFile pystr | ImageUrl pystr

text \<open>The calls to the assistant provider, with the arguments the source passes.\<close>

datatype pcall =
    MessagesCreate pystr content
  | CreateAndStream pystr pystr
  | AssistantsRetrieve pystr
  | FilesCreate pystr
  | RunsCreate pystr pystr
  | RunsRetrieve pystr pystr
  | MessagesList pystr

text \<open>
  The attributes of an \<^verbatim>\<open>AssistantHandler\<close> (\<open>threads\<close>, \<open>in_progress_runs\<close>,
  \<open>message_history\<close>, \<open>assistant_id\<close>), followed by the record of what the handler did to
  the outside: the provider calls, the texts passed to the delivery callback, the
  \<^verbatim>\<open>asyncio.sleep\<close> durations and the number of \<^verbatim>\<open>time.time()\<close> readings, each in order.
\<close>

record world =
  assistant_id :: pystr
  threads :: "int \<rightharpoonup> pystr"
  in_progress_runs :: "pystr \<rightharpoonup> bool"
  message_history :: "(pystr \<times> pystr) list"
  provider_calls :: "pcall list"
  delivered :: "pystr list"
  sleeps :: "rat list"
  clock_reads :: nat

record thread_message =
  msg_role :: pystr
  msg_run_id :: pystr
  msg_content :: "(pystr \<times> pystr) list"

text \<open>
  What the outside answers. A provider call is answered according to the number of
  provider calls made before it, a delivery according to the number of deliveries before
  it, and so on; \<open>Inl\<close> (or \<open>Some\<close> for a call without a result) is the exception raised.
  \<open>text_deltas\<close> of a stream are its fragments and the exception that ends the iteration,
  if any. A clock reading is a rational number of seconds.
\<close>

record env =
  send_resp :: "nat \<Rightarrow> exn option"
  sleep_resp :: "nat \<Rightarrow> exn option"
  clock_at :: "nat \<Rightarrow> rat"
  messages_create_resp :: "nat \<Rightarrow> exn + unit"
  create_and_stream_resp :: "nat \<Rightarrow> exn + (pystr list \<times> exn option)"
  assistants_retrieve_resp :: "nat \<Rightarrow> exn + pystr option"
  open_resp :: "nat \<Rightarrow> exn + unit"
  file_b64 :: pystr
  files_create_resp :: "nat \<Rightarrow> exn + pystr"
  runs_create_resp :: "nat \<Rightarrow> exn + (pystr \<times> pystr)"
  runs_retrieve_resp :: "nat \<Rightarrow> exn + pystr"
  messages_list_resp :: "nat \<Rightarrow> exn + thread_message list"

text \<open>
  How a block of statements ends: it falls through with a value, executes \<^verbatim>\<open>return\<close>,
  raises, or is still polling when the modelled number of loop iterations is used up.
\<close>

datatype 'a flow = Next 'a | Return | Raise exn | Pending

type_synonym 'a stmt = "world \<Rightarrow> 'a flow \<times> world"

definition result :: "'a \<Rightarrow> 'a stmt" where
  "result x w = (Next x, w)"

definition return_stmt :: "'a stmt" where
  "return_stmt w = (Return, w)"

definition update :: "(world \<Rightarrow> world) \<Rightarrow> unit stmt" where
  "update f w = (Next (), f w)"

definition seq :: "'a stmt \<Rightarrow> ('a \<Rightarrow> 'b stmt) \<Rightarrow> 'b stmt" where
  "seq m f w =
     (case m w of
        (Next x, w') \<Rightarrow> f x w'
      | (Return, w') \<Rightarrow> (Return, w')
      | (Raise e, w') \<Rightarrow> (Raise e, w')
      | (Pending, w') \<Rightarrow> (Pending, w'))"

text \<open>\<^verbatim>\<open>try: m except Exception as e: handler\<close>, the handler receiving \<^verbatim>\<open>str(e)\<close>.\<close>

definition try_except :: "'a stmt \<Rightarrow> (pystr \<Rightarrow> 'a stmt) \<Rightarrow> 'a stmt" where
  "try_except m handler w =
     (case m w of
        (Raise (Exception msg), w') \<Rightarrow> handler msg w'
      | (r, w') \<Rightarrow> (r, w'))"

text \<open>
  \<^verbatim>\<open>try: m finally: fin\<close> for a \<open>fin\<close> that is an assignment: it runs however \<open>m\<close> ends,
  and the way \<open>m\<close> ended is kept.
\<close>

definition try_finally :: "'a stmt \<Rightarrow> (world \<Rightarrow> world) \<Rightarrow> 'a stmt" where
  "try_finally m fin w =
     (case m w of
        (Pending, w') \<Rightarrow> (Pending, w')
      | (r, w') \<Rightarrow> (r, fin w'))"

subsection \<open>The outside calls\<close>

definition send_to_telegram :: "env \<Rightarrow> pystr \<Rightarrow> unit stmt" where
  "send_to_telegram env chunk w =
     (let w' = w\<lparr>delivered := delivered w @ [chunk]\<rparr>
      in case send_resp env (length (delivered w)) of
           None \<Rightarrow> (Next (), w')
         | Some e \<Rightarrow> (Raise e, w'))"

definition sleep :: "env \<Rightarrow> rat \<Rightarrow> unit stmt" where
  "sleep env d w =
     (let w' = w\<lparr>sleeps := sleeps w @ [d]\<rparr>
      in case sleep_resp env (length (sleeps w)) of
           None \<Rightarrow> (Next (), w')
         | Some e \<Rightarrow> (Raise e, w'))"

definition time_time :: "env \<Rightarrow> rat stmt" where
  "time_time env w = (Next (clock_at env (clock_reads w)), w\<lparr>clock_reads := Suc (clock_reads w)\<rparr>)"

definition provider :: "pcall \<Rightarrow> (nat \<Rightarrow> exn + 'a) \<Rightarrow> 'a stmt" where
  "provider c resp w =
     (let w' = w\<lparr>provider_calls := provider_calls w @ [c]\<rparr>
      in case resp (length (provider_calls w)) of
           Inl e \<Rightarrow> (Raise e, w')
         | Inr x \<Rightarrow> (Next x, w'))"

definition open_file :: "env \<Rightarrow> pystr \<Rightarrow> unit stmt" where
  "open_file env path w =
     (case open_resp env (length (provider_calls w)) of
        Inl e \<Rightarrow> (Raise e, w)
      | Inr x \<Rightarrow> (Next x, w))"

definition messages_create :: "env \<Rightarrow> pystr \<Rightarrow> content \<Rightarrow> unit stmt" where
  "messages_create env thread_id c = provider (MessagesCreate thread_id c) (messages_create_resp env)"

subsection \<open>Attribute updates\<close>

definition set_in_progress :: "pystr \<Rightarrow> bool \<Rightarrow> world \<Rightarrow> world" where
  "set_in_progress thread_id b w = w\<lparr>in_progress_runs := (in_progress_runs w)(thread_id \<mapsto> b)\<rparr>"

text \<open>\<^verbatim>\<open>self._in_progress_runs.get(thread_id, False)\<close>\<close>

definition in_progress :: "world \<Rightarrow> pystr \<Rightarrow> bool" where
  "in_progress w thread_id = (case in_progress_runs w thread_id of None \<Rightarrow> False | Some b \<Rightarrow> b)"

definition history_append :: "pystr \<Rightarrow> pystr \<Rightarrow> world \<Rightarrow> world" where
  "history_append role c w = w\<lparr>message_history := message_history w @ [(role, c)]\<rparr>"

definition trim_message_history :: "world \<Rightarrow> world" where
  "trim_message_history w =
     (let max_messages = 20
      in if length (message_history w) > max_messages
         then w\<lparr>message_history :=
                  drop (length (message_history w) - max_messages) (message_history w)\<rparr>
         else w)"

subsection \<open>String helpers\<close>

definition strip :: "pystr \<Rightarrow> pystr" where
  "strip s = rev (dropWhile isspace (rev (dropWhile isspace s)))"

text \<open>
  \<^verbatim>\<open>s.split(sep, 1)\<close> for a \<open>sep\<close> that occurs in \<open>s\<close>: the text before the first occurrence
  and the text after it; \<open>None\<close> when \<open>sep\<close> does not occur (\<^verbatim>\<open>sep in s\<close> is false).
\<close>

fun split_once :: "pystr \<Rightarrow> pystr \<Rightarrow> (pystr \<times> pystr) option" where
  "split_once sep [] = (if sep = [] then Some ([], []) else None)"
| "split_once sep (c # cs) =
     (if prefix sep (c # cs) then Some ([], drop (length sep) (c # cs))
      else (case split_once sep cs of
              None \<Rightarrow> None
            | Some (before, after) \<Rightarrow> Some (c # before, after)))"

subsection \<open>The notices\<close>

definition busy_notice :: pystr where
  "busy_notice =
     9203 # ascii '' Estoy procesando una solicitud anterior. Por favor, espera un momento.''"

definition analysing_notice :: pystr where
  "analysing_notice =
     128269 # ascii '' Estoy analizando la imagen. Esto puede tardar unos momentos...''"

definition cannot_process_notice :: pystr where
  "cannot_process_notice =
     10060 # ascii '' No pude procesar la imagen. Por favor, intenta con otra imagen o consulta sin imagen.''"

definition upload_failed_notice :: "pystr \<Rightarrow> pystr" where
  "upload_failed_notice e = [9888, 65039] @ ascii '' No se pudo subir la imagen. Error: '' @ e"

definition queued_notice :: pystr where
  "queued_notice =
     128260 # ascii '' Tu solicitud est'' @ [225] @
     ascii '' en cola. Esto puede tardar un momento debido a alta demanda...''"

definition still_queued_notice :: pystr where
  "still_queued_notice =
     9203 # ascii '' Tu solicitud sigue en cola. A veces el procesamiento de im'' @ [225] @
     ascii ''genes puede tardar un poco m'' @ [225] @ ascii ''s. Gracias por tu paciencia.''"

definition timeout_notice :: pystr where
  "timeout_notice =
     [9888, 65039] @ ascii '' El an'' @ [225] @ ascii ''lisis est'' @ [225] @
     ascii '' tomando m'' @ [225] @
     ascii ''s tiempo del esperado. Puedo continuar esperando o puedes cancelar e intentarlo nuevamente. '' @
     [191] @ ascii ''Quieres continuar esperando?''"

definition no_answer_notice :: "pystr \<Rightarrow> pystr" where
  "no_answer_notice model_name =
     [9888, 65039] @ ascii '' El asistente no gener'' @ [243] @
     ascii '' una respuesta para la imagen. Modelo usado: '' @ model_name"

definition failed_notice :: "pystr \<Rightarrow> pystr \<Rightarrow> pystr" where
  "failed_notice run_status model_name =
     10060 # ascii '' El an'' @ [225] @ ascii ''lisis fall'' @ [243] @ ascii '' con estado: '' @
     run_status @ ascii ''. Modelo usado: '' @ model_name"

definition sorry_notice :: "pystr \<Rightarrow> pystr" where
  "sorry_notice e =
     ascii ''Lo siento, ocurri'' @ [243] @ ascii '' un error al analizar la imagen: '' @ e"

subsection \<open>The text turn (\<^verbatim>\<open>stream_response\<close>)\<close>

text \<open>
  The loop over \<^verbatim>\<open>event_handler.text_deltas\<close>: a fragment is added to the buffer; when the
  buffer holds a blank line, the text before it is stripped, delivered and logged if not
  empty, and the buffer keeps the text after it. The loop yields the buffer left.
\<close>

fun stream_deltas :: "env \<Rightarrow> pystr list \<Rightarrow> pystr \<Rightarrow> pystr \<Rightarrow> pystr stmt" where
  "stream_deltas env [] buffer accumulated_text = result buffer"
| "stream_deltas env (partial_text # rest) buffer accumulated_text =
     (case split_once [10, 10] (buffer @ partial_text) of
        None \<Rightarrow> stream_deltas env rest (buffer @ partial_text) accumulated_text
      | Some (part0, part1) \<Rightarrow>
          (let processed_text = strip (accumulated_text @ part0)
           in if processed_text \<noteq> []
              then seq (send_to_telegram env processed_text) (\<lambda>_.
                   seq (update (history_append (ascii ''assistant'') processed_text)) (\<lambda>_.
                   stream_deltas env rest part1 []))
              else stream_deltas env rest part1 []))"

definition end_of_stream :: "exn option \<Rightarrow> unit stmt" where
  "end_of_stream e w = (case e of None \<Rightarrow> (Next (), w) | Some x \<Rightarrow> (Raise x, w))"

definition stream_block :: "env \<Rightarrow> pystr \<Rightarrow> unit stmt" where
  "stream_block env thread_id w =
     seq (provider (CreateAndStream thread_id (assistant_id w)) (create_and_stream_resp env))
       (\<lambda>(deltas, ending).
          seq (stream_deltas env deltas [] []) (\<lambda>buffer.
          seq (end_of_stream ending) (\<lambda>_.
          if strip buffer \<noteq> []
          then seq (send_to_telegram env (strip buffer)) (\<lambda>_.
               update (history_append (ascii ''assistant'') (strip buffer)))
          else result ()))) w"

definition stream_response_body :: "env \<Rightarrow> pystr \<Rightarrow> pystr \<Rightarrow> unit stmt" where
  "stream_response_body env thread_id message_str =
     seq (update (set_in_progress thread_id True)) (\<lambda>_.
     seq (try_except
            (seq (messages_create env thread_id (TextContent message_str)) (\<lambda>_.
             update (history_append (ascii ''user'') message_str)))
            (\<lambda>e. seq (update (set_in_progress thread_id False)) (\<lambda>_. return_stmt))) (\<lambda>_.
     try_except (stream_block env thread_id) (\<lambda>e. result ())))"

text \<open>
  How a call of a coroutine of the handler ends, for its caller. Both coroutines begin
  alike: the thread of the group is looked up and the call returns if there is none; if a
  run is in progress for the thread, the busy notice is delivered and the call returns;
  otherwise the body runs under \<^verbatim>\<open>try: ... finally: self._in_progress_runs[thread_id] = False\<close>.
\<close>

datatype outcome = Returns | Raises exn

fun finish :: "unit flow \<times> world \<Rightarrow> (outcome \<times> world) option" where
  "finish (Next x, w) = Some (Returns, w)"
| "finish (Return, w) = Some (Returns, w)"
| "finish (Raise e, w) = Some (Raises e, w)"
| "finish (Pending, w) = None"

definition turn :: "env \<Rightarrow> int \<Rightarrow> (pystr \<Rightarrow> unit stmt) \<Rightarrow> unit stmt" where
  "turn env group_id body w =
     (case threads w group_id of
        None \<Rightarrow> (Return, w)
      | Some thread_id \<Rightarrow>
          if thread_id = [] then (Return, w)
          else if in_progress w thread_id
          then seq (send_to_telegram env busy_notice) (\<lambda>_. return_stmt) w
          else try_finally (body thread_id) (set_in_progress thread_id False) w)"

definition stream_response :: "env \<Rightarrow> int \<Rightarrow> pystr \<Rightarrow> world \<Rightarrow> (outcome \<times> world) option" where
  "stream_response env group_id message_str w =
     finish (turn env group_id (\<lambda>thread_id. stream_response_body env thread_id message_str) w)"

subsection \<open>The image turn (\<^verbatim>\<open>stream_image_response\<close>)\<close>

definition model_name_of :: "env \<Rightarrow> pystr stmt" where
  "model_name_of env w =
     try_except
       (seq (provider (AssistantsRetrieve (assistant_id w)) (assistants_retrieve_resp env))
          (\<lambda>model. result (case model of None \<Rightarrow> ascii ''desconocido'' | Some m \<Rightarrow> m)))
       (\<lambda>e. result (ascii ''desconocido'')) w"

text \<open>
  The upload: the text message, the file, then the message with the file reference; if
  that message fails, the message with the inline base64 URL; if that fails too, a notice
  and \<^verbatim>\<open>return\<close>. An exception anywhere else in the block, also in that notice, goes to
  the outer handler. The block yields the file id.
\<close>

definition upload_block :: "env \<Rightarrow> pystr \<Rightarrow> pystr \<Rightarrow> pystr \<Rightarrow> pystr stmt" where
  "upload_block env thread_id message_str image_path =
     try_except
       (seq (messages_create env thread_id (TextContent message_str)) (\<lambda>_.
        seq (open_file env image_path) (\<lambda>_.
        seq (provider (FilesCreate image_path) (files_create_resp env)) (\<lambda>file_id.
        seq (try_except
               (messages_create env thread_id (ImageFile file_id))
               (\<lambda>e. try_except
                       (seq (open_file env image_path) (\<lambda>_.
                        messages_create env thread_id
                          (ImageUrl (ascii ''data:image/jpeg;base64,'' @ file_b64 env))))
                       (\<lambda>e2. seq (send_to_telegram env cannot_process_notice) (\<lambda>_.
                              seq (update (set_in_progress thread_id False)) (\<lambda>_.
                              return_stmt))))) (\<lambda>_.
        result file_id)))))
       (\<lambda>e. seq (send_to_telegram env (upload_failed_notice e)) (\<lambda>_.
            seq (update (set_in_progress thread_id False)) (\<lambda>_.
            return_stmt)))"

record poll_state =
  run_status :: pystr
  max_wait_time :: rat
  queued_message_sent :: bool
  queued_time_start :: "rat option"

definition terminal_statuses :: "pystr list" where
  "terminal_statuses = [ascii ''completed'', ascii ''failed'', ascii ''cancelled'', ascii ''expired'']"

text \<open>
  The \<^verbatim>\<open>queued\<close> branch of the loop. \<^verbatim>\<open>if queued_time_start and ...\<close> reads the clock only
  when \<^verbatim>\<open>queued_time_start\<close> is neither \<^verbatim>\<open>None\<close> nor zero.
\<close>

definition queued_notices :: "env \<Rightarrow> poll_state \<Rightarrow> poll_state stmt" where
  "queued_notices env ps =
     (if run_status ps = ascii ''queued''
      then seq (if \<not> queued_message_sent ps
                then seq (send_to_telegram env queued_notice) (\<lambda>_.
                     seq (time_time env) (\<lambda>t.
                     result (ps\<lparr>queued_message_sent := True, queued_time_start := Some t\<rparr>)))
                else result ps) (\<lambda>ps1.
           case queued_time_start ps1 of
             None \<Rightarrow> result ps1
           | Some t0 \<Rightarrow>
               if t0 = 0 then result ps1
               else seq (time_time env) (\<lambda>t.
                    if t - t0 > 30
                    then seq (send_to_telegram env still_queued_notice) (\<lambda>_.
                         result (ps1\<lparr>queued_time_start := None\<rparr>))
                    else result ps1))
      else result ps)"

definition timeout_check :: "env \<Rightarrow> rat \<Rightarrow> poll_state \<Rightarrow> poll_state stmt" where
  "timeout_check env elapsed_time ps =
     (if elapsed_time > max_wait_time ps
      then seq (send_to_telegram env timeout_notice) (\<lambda>_.
           result (ps\<lparr>max_wait_time := max_wait_time ps + 60\<rparr>))
      else result ps)"

definition poll_status :: "env \<Rightarrow> pystr \<Rightarrow> pystr \<Rightarrow> poll_state \<Rightarrow> poll_state stmt" where
  "poll_status env thread_id run_id ps =
     try_except
       (seq (provider (RunsRetrieve thread_id run_id) (runs_retrieve_resp env)) (\<lambda>status.
        result (ps\<lparr>run_status := status\<rparr>)))
       (\<lambda>e. seq (sleep env 5) (\<lambda>_. result ps))"

text \<open>
  The \<^verbatim>\<open>while run_status not in [...]\<close> loop. Nothing in the source bounds the number of
  its iterations; \<open>fuel\<close> is the number of iterations modelled, and a loop that has not left
  by then is \<open>Pending\<close>.
\<close>

fun poll_loop :: "env \<Rightarrow> nat \<Rightarrow> pystr \<Rightarrow> pystr \<Rightarrow> rat \<Rightarrow> poll_state \<Rightarrow> pystr stmt" where
  "poll_loop env 0 thread_id run_id start_time ps =
     (if run_status ps \<in> set terminal_statuses then result (run_status ps)
      else (\<lambda>w. (Pending, w)))"
| "poll_loop env (Suc fuel) thread_id run_id start_time ps =
     (if run_status ps \<in> set terminal_statuses then result (run_status ps)
      else seq (time_time env) (\<lambda>now.
           seq (queued_notices env ps) (\<lambda>ps1.
           seq (timeout_check env (now - start_time) ps1) (\<lambda>ps2.
           seq (sleep env (min 5 (1 + (now - start_time) / 20))) (\<lambda>_.
           seq (poll_status env thread_id run_id ps2) (\<lambda>ps3.
           poll_loop env fuel thread_id run_id start_time ps3))))))"

fun deliver_all :: "env \<Rightarrow> pystr list \<Rightarrow> unit stmt" where
  "deliver_all env [] = result ()"
| "deliver_all env (msg_text # rest) =
     seq (send_to_telegram env msg_text) (\<lambda>_.
     seq (update (history_append (ascii ''assistant'') msg_text)) (\<lambda>_.
     deliver_all env rest))"

definition assistant_texts :: "pystr \<Rightarrow> thread_message list \<Rightarrow> pystr list" where
  "assistant_texts run_id msgs =
     concat (map (\<lambda>msg.
       if msg_role msg = ascii ''assistant'' \<and> msg_run_id msg = run_id
       then map snd (filter (\<lambda>content_item. fst content_item = ascii ''text'') (msg_content msg))
       else []) msgs)"

definition analysis_block :: "env \<Rightarrow> nat \<Rightarrow> pystr \<Rightarrow> pystr \<Rightarrow> unit stmt" where
  "analysis_block env fuel thread_id model_name w =
     seq (provider (RunsCreate thread_id (assistant_id w)) (runs_create_resp env))
       (\<lambda>(status0, run_id).
          seq (time_time env) (\<lambda>start_time.
          seq (poll_loop env fuel thread_id run_id start_time
                 \<lparr>run_status = status0, max_wait_time = 120, queued_message_sent = False,
                  queued_time_start = None\<rparr>) (\<lambda>final_status.
          seq (time_time env) (\<lambda>_.
          if final_status = ascii ''completed''
          then seq (provider (MessagesList thread_id) (messages_list_resp env)) (\<lambda>msgs.
               if assistant_texts run_id msgs \<noteq> []
               then deliver_all env (assistant_texts run_id msgs)
               else send_to_telegram env (no_answer_notice model_name))
          else send_to_telegram env (failed_notice final_status model_name))))) w"

definition stream_image_body :: "env \<Rightarrow> nat \<Rightarrow> pystr \<Rightarrow> pystr \<Rightarrow> pystr \<Rightarrow> unit stmt" where
  "stream_image_body env fuel thread_id message_str image_path =
     seq (update (set_in_progress thread_id True)) (\<lambda>_.
     seq (send_to_telegram env analysing_notice) (\<lambda>_.
     seq (model_name_of env) (\<lambda>model_name.
     seq (upload_block env thread_id message_str image_path) (\<lambda>file_id.
     seq (update (history_append (ascii ''user'')
            (message_str @ ascii '' [IMAGEN adjuntada como archivo: '' @ file_id @ ascii '']''))) (\<lambda>_.
     try_except (analysis_block env fuel thread_id model_name)
       (\<lambda>e. send_to_telegram env (sorry_notice e)))))))"

definition stream_image_response ::
  "env \<Rightarrow> nat \<Rightarrow> int \<Rightarrow> pystr \<Rightarrow> pystr option \<Rightarrow> pystr \<Rightarrow> world \<Rightarrow> (outcome \<times> world) option" where
  "stream_image_response env fuel group_id message_str image_base64 image_path w =
     finish (turn env group_id
               (\<lambda>thread_id. stream_image_body env fuel thread_id message_str image_path) w)"

section \<open>The session store (\<^verbatim>\<open>ConversationManager\<close>)\<close>

subsection \<open>State\<close>

text \<open>
  \<^verbatim>\<open>register_bots\<close> makes the \<open>threads\<close> attribute of every handler the very dictionary
  of the manager, and the methods below write to the manager's dictionary and to each
  handler's. The dictionaries are therefore objects in a store, \<open>dicts\<close>, addressed by
  numbers: \<open>threads_at\<close> is the address of \<^verbatim>\<open>self.threads\<close>, and \<open>all_bots\<close> lists the bots
  in the order of the Python dictionary, each with the address of
  \<^verbatim>\<open>bot.assistant_handler.threads\<close>. \<open>thread_locks\<close> holds the lock of a group, \<open>True\<close>
  when it is held. \<open>create_calls\<close> counts the calls of the provider's
  \<^verbatim>\<open>threads.create()\<close>.
\<close>

record manager =
  dicts :: "nat \<Rightarrow> (int \<rightharpoonup> pystr)"
  threads_at :: nat
  all_bots :: "(pystr \<times> nat) list"
  user_data :: "int \<rightharpoonup> (pystr \<rightharpoonup> pystr)"
  thread_locks :: "int \<rightharpoonup> bool"
  create_calls :: nat

definition dict_set :: "nat \<Rightarrow> int \<Rightarrow> pystr \<Rightarrow> (nat \<Rightarrow> (int \<rightharpoonup> pystr)) \<Rightarrow> (nat \<Rightarrow> (int \<rightharpoonup> pystr))" where
  "dict_set a group_id thread_id d = d(a := (d a)(group_id \<mapsto> thread_id))"

definition dict_del :: "nat \<Rightarrow> int \<Rightarrow> (nat \<Rightarrow> (int \<rightharpoonup> pystr)) \<Rightarrow> (nat \<Rightarrow> (int \<rightharpoonup> pystr))" where
  "dict_del a group_id d = d(a := (d a)(group_id := None))"

definition register_bots :: "(pystr \<times> nat) list \<Rightarrow> manager \<Rightarrow> manager" where
  "register_bots bots m = m\<lparr>all_bots := map (\<lambda>(bot_name, a). (bot_name, threads_at m)) bots\<rparr>"

definition is_active :: "manager \<Rightarrow> int \<Rightarrow> bool" where
  "is_active m group_id \<longleftrightarrow> group_id \<in> dom (dicts m (threads_at m))"

definition get_thread_id :: "manager \<Rightarrow> int \<Rightarrow> pystr option" where
  "get_thread_id m group_id = dicts m (threads_at m) group_id"

definition get_thread_lock :: "int \<Rightarrow> manager \<Rightarrow> manager" where
  "get_thread_lock group_id m =
     (if group_id \<in> dom (thread_locks m) then m
      else m\<lparr>thread_locks := (thread_locks m)(group_id \<mapsto> False)\<rparr>)"

text \<open>
  \<^verbatim>\<open>bot.assistant_handler.threads[group_id] = thread_id\<close> for one bot, and
  \<^verbatim>\<open>self.threads[group_id] = thread_id\<close> followed by the loop over the bots.
\<close>

definition sync_handler :: "int \<Rightarrow> pystr \<Rightarrow> (nat \<Rightarrow> (int \<rightharpoonup> pystr)) \<Rightarrow> pystr \<times> nat \<Rightarrow> (nat \<Rightarrow> (int \<rightharpoonup> pystr))" where
  "sync_handler group_id thread_id d entry = dict_set (snd entry) group_id thread_id d"

definition store_and_sync :: "int \<Rightarrow> pystr \<Rightarrow> manager \<Rightarrow> manager" where
  "store_and_sync group_id thread_id m =
     m\<lparr>dicts := foldl (sync_handler group_id thread_id)
                   (dict_set (threads_at m) group_id thread_id (dicts m)) (all_bots m)\<rparr>"

subsection \<open>\<^verbatim>\<open>end_conversation\<close>\<close>

text \<open>
  \<^verbatim>\<open>if group_id in bot.assistant_handler.threads: del bot.assistant_handler.threads[group_id]\<close>
  for one bot, and the method: \<^verbatim>\<open>self.threads.pop(group_id)\<close>, then the loop over the bots.
\<close>

definition clear_handler :: "int \<Rightarrow> (nat \<Rightarrow> (int \<rightharpoonup> pystr)) \<Rightarrow> pystr \<times> nat \<Rightarrow> (nat \<Rightarrow> (int \<rightharpoonup> pystr))" where
  "clear_handler group_id d entry =
     (if group_id \<in> dom (d (snd entry)) then dict_del (snd entry) group_id d else d)"

definition end_conversation :: "int \<Rightarrow> manager \<Rightarrow> bool \<times> manager" where
  "end_conversation group_id m =
     (if group_id \<in> dom (dicts m (threads_at m))
      then (True,
            m\<lparr>dicts := foldl (clear_handler group_id)
                          (dict_del (threads_at m) group_id (dicts m)) (all_bots m)\<rparr>)
      else (False, m))"

subsection \<open>\<^verbatim>\<open>set_thread_id\<close>, statement by statement\<close>

text \<open>
  A call of the coroutine \<^verbatim>\<open>set_thread_id(group_id, thread_id)\<close> is a task with a program
  counter. Its steps, in the order of the source: \<open>Start\<close> obtains the lock object of the
  group (\<^verbatim>\<open>get_thread_lock\<close>); \<open>WaitLock\<close> enters \<^verbatim>\<open>async with lock\<close>, which it can only
  do while the lock is free; \<open>Locked\<close> is the re-check for an existing thread id and the
  test of the hint; \<open>Create\<close> is the call of \<^verbatim>\<open>threads.create()\<close> through the first bot,
  inside \<^verbatim>\<open>try ... except Exception\<close>; \<open>Store\<close> records the id and writes it to the
  handlers; \<open>Release\<close> leaves \<^verbatim>\<open>async with\<close> with the value to return (or the exception
  that passes through); \<open>Done\<close> is the finished call. The event loop never switches
  tasks more often than between two of these steps.
\<close>

datatype call_result = Value "pystr option" | Error exn

datatype pc = Start | WaitLock | Locked | Create | Store pystr | Release call_result | Done call_result

record task =
  task_key :: int
  task_hint :: "pystr option"
  task_pc :: pc

text \<open>\<^verbatim>\<open>if thread_id and isinstance(thread_id, str)\<close>: a non-empty hint is stored, else a thread is created.\<close>

fun after_check :: "pystr option \<Rightarrow> pc" where
  "after_check None = Create"
| "after_check (Some thread_id) = (if thread_id \<noteq> [] then Store thread_id else Create)"

definition task_step :: "(nat \<Rightarrow> exn + pystr) \<Rightarrow> task \<Rightarrow> manager \<Rightarrow> task \<times> manager" where
  "task_step create_resp t m =
     (case task_pc t of
        Start \<Rightarrow> (t\<lparr>task_pc := WaitLock\<rparr>, get_thread_lock (task_key t) m)
      | WaitLock \<Rightarrow>
          (if thread_locks m (task_key t) = Some False
           then (t\<lparr>task_pc := Locked\<rparr>, m\<lparr>thread_locks := (thread_locks m)(task_key t \<mapsto> True)\<rparr>)
           else (t, m))
      | Locked \<Rightarrow>
          (case get_thread_id m (task_key t) of
             None \<Rightarrow> (t\<lparr>task_pc := after_check (task_hint t)\<rparr>, m)
           | Some existing_thread_id \<Rightarrow>
               if existing_thread_id \<noteq> []
               then (t\<lparr>task_pc := Release (Value (Some existing_thread_id))\<rparr>, m)
               else (t\<lparr>task_pc := after_check (task_hint t)\<rparr>, m))
      | Create \<Rightarrow>
          (case all_bots m of
             [] \<Rightarrow> (t\<lparr>task_pc := Release (Value None)\<rparr>, m)
           | next_bot # bots \<Rightarrow>
               (case create_resp (create_calls m) of
                  Inl (Exception msg) \<Rightarrow>
                    (t\<lparr>task_pc := Release (Value None)\<rparr>, m\<lparr>create_calls := Suc (create_calls m)\<rparr>)
                | Inl (BaseException msg) \<Rightarrow>
                    (t\<lparr>task_pc := Release (Error (BaseException msg))\<rparr>,
                     m\<lparr>create_calls := Suc (create_calls m)\<rparr>)
                | Inr new_thread_id \<Rightarrow>
                    if new_thread_id \<noteq> []
                    then (t\<lparr>task_pc := Store new_thread_id\<rparr>,
                          m\<lparr>create_calls := Suc (create_calls m)\<rparr>)
                    else (t\<lparr>task_pc := Release (Value None)\<rparr>,
                          m\<lparr>create_calls := Suc (create_calls m)\<rparr>)))
      | Store thread_id \<Rightarrow>
          (t\<lparr>task_pc := Release (Value (Some thread_id))\<rparr>, store_and_sync (task_key t) thread_id m)
      | Release r \<Rightarrow>
          (t\<lparr>task_pc := Done r\<rparr>, m\<lparr>thread_locks := (thread_locks m)(task_key t \<mapsto> False)\<rparr>)
      | Done r \<Rightarrow> (t, m))"

text \<open>
  The tasks of the event loop and a schedule: the list of the indices of the tasks that
  take the next step, one after the other. A task that waits for a held lock, or is done,
  stays where it is.
\<close>

definition step :: "(nat \<Rightarrow> exn + pystr) \<Rightarrow> nat \<Rightarrow> manager \<times> task list \<Rightarrow> manager \<times> task list" where
  "step create_resp i s =
     (case s of (m, ts) \<Rightarrow>
        if i < length ts
        then (case task_step create_resp (ts ! i) m of (t', m') \<Rightarrow> (m', ts[i := t']))
        else (m, ts))"

fun run :: "(nat \<Rightarrow> exn + pystr) \<Rightarrow> nat list \<Rightarrow> manager \<times> task list \<Rightarrow> manager \<times> task list" where
  "run create_resp [] s = s"
| "run create_resp (i # sched) s = run create_resp sched (step create_resp i s)"

definition new_task :: "int \<Rightarrow> pystr option \<Rightarrow> task" where
  "new_task group_id thread_id = \<lparr>task_key = group_id, task_hint = thread_id, task_pc = Start\<rparr>"

definition all_done :: "task list \<Rightarrow> bool" where
  "all_done ts = list_all (\<lambda>t. case task_pc t of Done r \<Rightarrow> True | _ \<Rightarrow> False) ts"

text \<open>
  One call of \<^verbatim>\<open>set_thread_id\<close> running by itself: the six steps of its longest path. The
  result is \<open>None\<close> if the call is still waiting for the lock.
\<close>

definition set_thread_id ::
  "(nat \<Rightarrow> exn + pystr) \<Rightarrow> int \<Rightarrow> pystr option \<Rightarrow> manager \<Rightarrow> call_result option \<times> manager" where
  "set_thread_id create_resp group_id thread_id m =
     (case run create_resp [0, 0, 0, 0, 0, 0] (m, [new_task group_id thread_id]) of
        (m', ts) \<Rightarrow>
          (case task_pc (ts ! 0) of Done r \<Rightarrow> (Some r, m') | _ \<Rightarrow> (None, m')))"

section \<open>Proof vocabulary and example inputs\<close>

text \<open>A statement that always ends: it is never left polling.\<close>

definition never_pending :: "'a stmt \<Rightarrow> bool" where
  "never_pending m \<longleftrightarrow> (\<forall>w. fst (m w) \<noteq> Pending)"

text \<open>\<open>m'\<close> ends as \<open>m\<close> does wherever \<open>m\<close> ends.\<close>

definition extends :: "'a stmt \<Rightarrow> 'a stmt \<Rightarrow> bool" where
  "extends m m' \<longleftrightarrow> (\<forall>w r w'. m w = (r, w') \<and> r \<noteq> Pending \<longrightarrow> m' w = (r, w'))"

text \<open>
  An outside where every call succeeds: the stream sends twenty paragraphs, the run is
  created \<^verbatim>\<open>queued\<close>, the clock advances 121 seconds from one reading to the next, and the
  run is \<^verbatim>\<open>completed\<close> from the eighth provider call on.
\<close>

definition quiet_env :: env where
  "quiet_env =
     \<lparr>send_resp = (\<lambda>n. None), sleep_resp = (\<lambda>n. None), clock_at = (\<lambda>n. 121 * of_nat n),
      messages_create_resp = (\<lambda>n. Inr ()),
      create_and_stream_resp = (\<lambda>n. Inr (replicate 20 (ascii ''p'' @ [10, 10]), None)),
      assistants_retrieve_resp = (\<lambda>n. Inr (Some (ascii ''gpt''))),
      open_resp = (\<lambda>n. Inr ()), file_b64 = ascii ''QUJD'',
      files_create_resp = (\<lambda>n. Inr (ascii ''file_1'')),
      runs_create_resp = (\<lambda>n. Inr (ascii ''queued'', ascii ''run_1'')),
      runs_retrieve_resp =
        (\<lambda>n. if n < 7 then Inr (ascii ''in_progress'') else Inr (ascii ''completed'')),
      messages_list_resp = (\<lambda>n. Inr [])\<rparr>"

text \<open>A handler with one thread, no run in progress and an empty history.\<close>

definition idle_world :: world where
  "idle_world =
     \<lparr>assistant_id = ascii ''asst_1'', threads = [1 \<mapsto> ascii ''thread_1''],
      in_progress_runs = Map.empty, message_history = [], provider_calls = [], delivered = [],
      sleeps = [], clock_reads = 0\<rparr>"

definition busy_world :: world where
  "busy_world = idle_world\<lparr>in_progress_runs := [ascii ''thread_1'' \<mapsto> True]\<rparr>"


text \<open>
  A manager after \<^verbatim>\<open>register_bots\<close> with two bots, whose handlers share the dictionary at
  address 0; group 1 has a user name and no thread.
\<close>

definition fresh_manager :: manager where
  "fresh_manager =
     \<lparr>dicts = (\<lambda>a. Map.empty), threads_at = 0,
      all_bots = [(ascii ''Regen'', 0), (ascii ''Degen'', 0)],
      user_data = [1 \<mapsto> [ascii ''name'' \<mapsto> ascii ''Ana'']],
      thread_locks = Map.empty, create_calls = 0\<rparr>"

text \<open>The same with the thread \<^verbatim>\<open>thread_a\<close> recorded for group 1, in a handler dictionary of its own too.\<close>

definition active_manager :: manager where
  "active_manager =
     fresh_manager\<lparr>dicts := (\<lambda>a. if a \<le> 1 then [1 \<mapsto> ascii ''thread_a''] else Map.empty),
       all_bots := [(ascii ''Regen'', 0), (ascii ''Degen'', 1)],
       thread_locks := [1 \<mapsto> False]\<rparr>"

text \<open>A provider that creates a thread at every call, and one whose first call fails.\<close>

definition provider_ok :: "nat \<Rightarrow> exn + pystr" where
  "provider_ok k = Inr (ascii ''thread_'' @ [cp CHR ''a'' + k])"

definition provider_flaky :: "nat \<Rightarrow> exn + pystr" where
  "provider_flaky k =
     (if k = 0 then Inl (Exception (ascii ''timeout'')) else Inr (ascii ''thread_b''))"

text \<open>
  The vocabulary of the proof about concurrent calls of \<^verbatim>\<open>set_thread_id\<close> for one group
  \<open>g\<close>: a task is critical while it is inside \<^verbatim>\<open>async with lock\<close>; the weight of a task
  is the number of steps it has at most before it is done.
\<close>

fun critical :: "pc \<Rightarrow> bool" where
  "critical Start = False"
| "critical WaitLock = False"
| "critical Locked = True"
| "critical Create = True"
| "critical (Store h) = True"
| "critical (Release r) = True"
| "critical (Done r) = False"

fun weight :: "pc \<Rightarrow> nat" where
  "weight Start = 6"
| "weight WaitLock = 5"
| "weight Locked = 4"
| "weight Create = 3"
| "weight (Store h) = 2"
| "weight (Release r) = 1"
| "weight (Done r) = 0"

definition total_weight :: "task list \<Rightarrow> nat" where
  "total_weight ts = sum_list (map (\<lambda>t. weight (task_pc t)) ts)"

definition no_handle :: "manager \<Rightarrow> int \<Rightarrow> bool" where
  "no_handle m g \<longleftrightarrow> get_thread_id m g = None \<or> get_thread_id m g = Some []"

text \<open>All tasks are calls for the group \<open>g\<close> without a hint.\<close>

definition same_call :: "int \<Rightarrow> task list \<Rightarrow> bool" where
  "same_call g ts \<longleftrightarrow> (\<forall>i<length ts. task_key (ts ! i) = g \<and> task_hint (ts ! i) = None)"

text \<open>
  The lock of \<open>g\<close> is held exactly when some task is critical, at most one task is
  critical, and the lock exists once a task has passed \<^verbatim>\<open>get_thread_lock\<close>.
\<close>

definition lock_inv :: "int \<Rightarrow> manager \<Rightarrow> task list \<Rightarrow> bool" where
  "lock_inv g m ts \<longleftrightarrow>
     (thread_locks m g = Some True \<longleftrightarrow> (\<exists>i<length ts. critical (task_pc (ts ! i)))) \<and>
     (\<forall>i<length ts. \<forall>j<length ts.
        critical (task_pc (ts ! i)) \<and> critical (task_pc (ts ! j)) \<longrightarrow> i = j) \<and>
     (\<forall>i<length ts. task_pc (ts ! i) \<noteq> Start \<longrightarrow> thread_locks m g \<noteq> None)"

text \<open>
  The three phases of the race, \<open>c0\<close> being the number of provider calls before it and
  \<open>h0\<close> the id that the provider returns at its next call: nothing created yet; the thread
  created and about to be stored, the lock still held; the thread stored.
\<close>

definition phase_inv :: "int \<Rightarrow> nat \<Rightarrow> pystr \<Rightarrow> manager \<Rightarrow> task list \<Rightarrow> bool" where
  "phase_inv g c0 h0 m ts \<longleftrightarrow>
     (no_handle m g \<and> create_calls m = c0 \<and>
      (\<forall>i<length ts. task_pc (ts ! i) \<in> {Start, WaitLock, Locked, Create})) \<or>
     (no_handle m g \<and> create_calls m = Suc c0 \<and>
      (\<forall>i<length ts. task_pc (ts ! i) \<in> {Start, WaitLock, Store h0}) \<and>
      thread_locks m g = Some True) \<or>
     (get_thread_id m g = Some h0 \<and> create_calls m = Suc c0 \<and>
      (\<forall>i<length ts. task_pc (ts ! i) \<in>
         {Start, WaitLock, Locked, Release (Value (Some h0)), Done (Value (Some h0))}))"

definition race_inv ::
  "(nat \<Rightarrow> exn + pystr) \<Rightarrow> int \<Rightarrow> nat \<Rightarrow> pystr \<Rightarrow> manager \<times> task list \<Rightarrow> bool" where
  "race_inv create_resp g c0 h0 s \<longleftrightarrow>
     (case s of (m, ts) \<Rightarrow>
        create_resp c0 = Inr h0 \<and> h0 \<noteq> [] \<and> all_bots m \<noteq> [] \<and>
        same_call g ts \<and> lock_inv g m ts \<and> phase_inv g c0 h0 m ts)"

text \<open>The task list after task \<open>i\<close> has moved to the program counter \<open>q\<close>.\<close>

definition set_pc :: "nat \<Rightarrow> pc \<Rightarrow> task list \<Rightarrow> task list" where
  "set_pc i q ts = ts[i := (ts ! i)\<lparr>task_pc := q\<rparr>]"

text \<open>
  Three calls for group 1 whose steps alternate: the second and the third wait while the
  first holds the lock. And two calls that run one after the other.
\<close>

definition interleaved :: "nat list" where
  "interleaved = [0, 1, 2, 0, 1, 2, 0, 1, 2, 0, 0, 0, 1, 1, 1, 2, 2, 2]"

definition one_by_one :: "nat list" where
  "one_by_one = [0, 0, 0, 0, 0, 1, 1, 1, 1, 1, 1]"

subsection \<open>The list passes of \<^verbatim>\<open>prepare_text_for_html\<close> and their normal forms\<close>











section \<open>Properties of the text reformatters\<close>

text \<open>
  The definitions to unfold for running the matcher and the reformatters on a concrete
  text with the simplifier.
\<close>

lemmas reformat_eval =
  process_markdown_def prepare_text_for_html_def unescape_tags_def re_sub_def str_replace_def
  pm_spaces_def space_colon_def pm_numbered_bold_def pm_heading_def pm_numbered_def bold_def
  html_heading_def html_bold_spaced_def html_bullet_def html_dash_def html_numbered_def
  bullet_def ascii_def cp_def lens_def isspace_def isdecimal_def

subsection \<open>The examples of the markdown dialect\<close>

lemma process_markdown_heading: "process_markdown nd (ascii ''### Title'') = ascii ''*Title*''"
  by (simp add: reformat_eval)

lemma process_markdown_bold: "process_markdown nd (ascii ''**bold**'') = ascii ''*bold*''"
  by (simp add: reformat_eval)

lemma process_markdown_numbered_label:
  "process_markdown nd (ascii ''1.  **  Label  **  :'') = ascii ''1. *Label*:''"
  by (simp add: reformat_eval)

lemma process_markdown_numbered_label_single_spaces:
  "process_markdown nd (ascii ''1. ** Label **:'') = ascii ''1. *Label*:''"
  by (simp add: reformat_eval)

lemma process_markdown_numbered_label_no_spaces:
  "process_markdown nd (ascii ''1. **Label**:'') = ascii ''1. *Label*:''"
  by (simp add: reformat_eval)

text \<open>
  C7. \<open>process_markdown\<close> maps the three examples as the claim says (the lemmas above), but
  its last step, commented \<^verbatim>\<open>Eliminar cualquier asterisco duplicado que pueda quedar\<close>, is
  one pass of \<^verbatim>\<open>replace('**', '*')\<close> followed by one pass of \<^verbatim>\<open>replace('* *', '*')\<close>: of a run
  of three asterisks two remain. The markdown rule \<^verbatim>\<open>***\<close> comes out as a doubled marker.
\<close>

theorem process_markdown_leaves_doubled_marker:
  "process_markdown nd (ascii ''***'') = ascii ''**''"
  by (simp add: reformat_eval)

subsection \<open>Texts without a mark-up character\<close>






subsection \<open>The colon, bullet and dash steps reach their normal forms\<close>





















































subsection \<open>Claims about the tag-based reformatter\<close>





section \<open>Properties of the assistant session client\<close>

subsection \<open>Statements that always end\<close>

lemma np_result: "never_pending (result x)"
  by (simp add: never_pending_def result_def)

lemma np_return: "never_pending return_stmt"
  by (simp add: never_pending_def return_stmt_def)

lemma np_update: "never_pending (update f)"
  by (simp add: never_pending_def update_def)

lemma np_send: "never_pending (send_to_telegram env c)"
  by (simp add: never_pending_def send_to_telegram_def Let_def split: option.splits)

lemma np_provider: "never_pending (provider c resp)"
  by (simp add: never_pending_def provider_def Let_def split: sum.splits)

lemma np_end: "never_pending (end_of_stream e)"
  by (simp add: never_pending_def end_of_stream_def split: option.splits)

lemma np_seq: "never_pending m \<Longrightarrow> (\<And>x. never_pending (f x)) \<Longrightarrow> never_pending (seq m f)"
  unfolding never_pending_def seq_def
  by (auto split: prod.splits flow.splits) (metis fst_conv)

lemma np_try:
  "never_pending m \<Longrightarrow> (\<And>e. never_pending (h e)) \<Longrightarrow> never_pending (try_except m h)"
  unfolding never_pending_def try_except_def
  by (auto split: prod.splits flow.splits exn.splits) (metis fst_conv)

lemma np_deltas: "never_pending (stream_deltas env ds b a)"
proof (induction ds arbitrary: b a)
  case Nil
  show ?case by (simp add: np_result)
next
  case (Cons d ds)
  show ?case
    by (auto simp: Let_def split: option.splits intro!: np_seq np_send np_update Cons.IH)
qed

lemma np_stream_block: "never_pending (stream_block env thread_id)"
  unfolding never_pending_def
proof
  fix w :: world
  have "never_pending
          (seq (provider (CreateAndStream thread_id (assistant_id w)) (create_and_stream_resp env))
             (\<lambda>(deltas, ending).
                seq (stream_deltas env deltas [] []) (\<lambda>buffer.
                seq (end_of_stream ending) (\<lambda>_.
                if strip buffer \<noteq> []
                then seq (send_to_telegram env (strip buffer)) (\<lambda>_.
                     update (history_append (ascii ''assistant'') (strip buffer)))
                else result ()))))"
    by (auto intro!: np_seq np_provider np_deltas np_end np_send np_update np_result)
  then show "fst (stream_block env thread_id w) \<noteq> Pending"
    by (simp add: never_pending_def stream_block_def)
qed

lemma np_text_body: "never_pending (stream_response_body env thread_id message_str)"
  unfolding stream_response_body_def messages_create_def
  by (intro np_seq np_try np_update np_provider np_return np_result np_stream_block)

subsection \<open>The frame of a turn\<close>

lemma finish_try_finally:
  assumes "finish (try_finally m fin w) = Some (r, w')"
  shows "\<exists>w''. w' = fin w''"
  using assms by (auto simp: try_finally_def split: prod.splits flow.splits)

lemma in_progress_after_clear: "in_progress_runs (set_in_progress t False w) t = Some False"
  by (simp add: set_in_progress_def)

lemma turn_clears:
  assumes "threads w group_id = Some thread_id" and "thread_id \<noteq> []"
    and "\<not> in_progress w thread_id"
    and "finish (turn env group_id body w) = Some (r, w')"
  shows "in_progress_runs w' thread_id = Some False"
proof -
  from assms
  have "finish (try_finally (body thread_id) (set_in_progress thread_id False) w) = Some (r, w')"
    by (simp add: turn_def)
  then obtain w'' where "w' = set_in_progress thread_id False w''"
    using finish_try_finally by blast
  then show ?thesis by (simp add: in_progress_after_clear)
qed

lemma turn_returns:
  assumes "\<And>t. never_pending (body t)"
  shows "\<exists>r w'. finish (turn env group_id body w) = Some (r, w')"
proof -
  have "never_pending (turn env group_id body)"
    using assms
    unfolding never_pending_def turn_def try_finally_def seq_def send_to_telegram_def
      return_stmt_def Let_def
    by (auto split: option.splits prod.splits flow.splits) (metis fst_conv)+
  then have "fst (turn env group_id body w) \<noteq> Pending"
    by (simp add: never_pending_def)
  then show ?thesis
    by (cases "turn env group_id body w"; cases "fst (turn env group_id body w)") auto
qed

lemma idle_world_simps:
  "threads idle_world 1 = Some (ascii ''thread_1'')"
  "threads idle_world 2 = None"
  "ascii ''thread_1'' \<noteq> []"
  "\<not> in_progress idle_world (ascii ''thread_1'')"
  "threads busy_world 1 = Some (ascii ''thread_1'')"
  "in_progress_runs busy_world (ascii ''thread_1'') = Some True"
  by (simp_all add: idle_world_def busy_world_def in_progress_def ascii_def)

lemma quiet_env_simps:
  "send_resp quiet_env k = None"
  "sleep_resp quiet_env k = None"
  "clock_at quiet_env k = 121 * of_nat k"
  "messages_create_resp quiet_env k = Inr ()"
  "create_and_stream_resp quiet_env k = Inr (replicate 20 [112, 10, 10], None)"
  "assistants_retrieve_resp quiet_env k = Inr (Some (ascii ''gpt''))"
  "open_resp quiet_env k = Inr ()"
  "files_create_resp quiet_env k = Inr (ascii ''file_1'')"
  "runs_create_resp quiet_env k = Inr (ascii ''queued'', ascii ''run_1'')"
  "runs_retrieve_resp quiet_env k =
     (if k < 7 then Inr (ascii ''in_progress'') else Inr (ascii ''completed''))"
  "messages_list_resp quiet_env k = Inr []"
  by (simp_all add: quiet_env_def ascii_def cp_def)

text \<open>The definitions to unfold for running a turn on a concrete world.\<close>

lemmas turn_eval =
  stream_response_def stream_image_response_def turn_def in_progress_def try_finally_def
  stream_response_body_def stream_image_body_def seq_def update_def try_except_def
  messages_create_def provider_def open_file_def stream_block_def result_def return_stmt_def
  end_of_stream_def send_to_telegram_def sleep_def time_time_def history_append_def
  set_in_progress_def model_name_of_def upload_block_def analysis_block_def queued_notices_def
  timeout_check_def poll_status_def terminal_statuses_def assistant_texts_def strip_def
  isspace_def

subsection \<open>The stream of a text turn\<close>

lemma deltas_paragraphs:
  assumes "\<And>k. send_resp env k = None"
  shows "stream_deltas env (replicate n [112, 10, 10]) [] [] w =
           (Next [], w\<lparr>message_history := message_history w @ replicate n (ascii ''assistant'', [112]),
                        delivered := delivered w @ replicate n [112]\<rparr>)"
proof (induction n arbitrary: w)
  case 0
  show ?case by (simp add: result_def)
next
  case (Suc n)
  show ?case
    by (simp add: Suc.IH strip_def isspace_def seq_def send_to_telegram_def assms update_def
          history_append_def replicate_append_same Let_def)
qed

lemma trim_message_history_bound: "length (message_history (trim_message_history w)) \<le> 20"
  by (simp add: trim_message_history_def Let_def)

lemma trim_message_history_keeps_latest:
  "message_history (trim_message_history w) =
     drop (length (message_history w) - 20) (message_history w)"
  by (simp add: trim_message_history_def Let_def)

subsection \<open>The polling loop\<close>





subsection \<open>More fuel never changes the result of a call that has ended\<close>

lemma extends_refl: "extends m m"
  by (simp add: extends_def)

lemma extends_seq:
  assumes "extends m m'" and "\<And>x. extends (f x) (f' x)"
  shows "extends (seq m f) (seq m' f')"
  unfolding extends_def
proof (intro allI impI)
  fix w r w'
  assume a: "seq m f w = (r, w') \<and> r \<noteq> Pending"
  obtain r1 w1 where m: "m w = (r1, w1)" by (cases "m w")
  with a have "r1 \<noteq> Pending" by (auto simp: seq_def)
  with m assms(1) have m': "m' w = (r1, w1)" by (auto simp: extends_def)
  show "seq m' f' w = (r, w')"
  proof (cases r1)
    case (Next x)
    with a m have "f x w1 = (r, w')" by (simp add: seq_def)
    with a assms(2) have "f' x w1 = (r, w')" by (auto simp: extends_def)
    with m' Next show ?thesis by (simp add: seq_def)
  qed (use a m m' in \<open>auto simp: seq_def\<close>)
qed

lemma extends_try_except:
  assumes "extends m m'"
  shows "extends (try_except m h) (try_except m' h)"
  unfolding extends_def
proof (intro allI impI)
  fix w r w'
  assume a: "try_except m h w = (r, w') \<and> r \<noteq> Pending"
  obtain r1 w1 where m: "m w = (r1, w1)" by (cases "m w")
  with a have "r1 \<noteq> Pending" by (auto simp: try_except_def)
  with m assms(1) have m': "m' w = (r1, w1)" by (auto simp: extends_def)
  with a m show "try_except m' h w = (r, w')" by (simp add: try_except_def)
qed

lemma extends_try_finally:
  assumes "extends m m'"
  shows "extends (try_finally m fin) (try_finally m' fin)"
  unfolding extends_def
proof (intro allI impI)
  fix w r w'
  assume a: "try_finally m fin w = (r, w') \<and> r \<noteq> Pending"
  obtain r1 w1 where m: "m w = (r1, w1)" by (cases "m w")
  with a have "r1 \<noteq> Pending" by (auto simp: try_finally_def)
  with m assms(1) have m': "m' w = (r1, w1)" by (auto simp: extends_def)
  with a m show "try_finally m' fin w = (r, w')" by (simp add: try_finally_def)
qed

lemma poll_loop_more_fuel:
  "extends (poll_loop env fuel thread_id run_id start_time ps)
     (poll_loop env (Suc fuel) thread_id run_id start_time ps)"
proof (induction fuel arbitrary: ps)
  case 0
  show ?case by (auto simp: extends_def result_def)
next
  case (Suc fuel)
  show ?case
  proof (cases "run_status ps \<in> set terminal_statuses")
    case True
    then show ?thesis by (simp add: extends_refl)
  next
    case False
    have "extends
       (seq (time_time env) (\<lambda>now.
           seq (queued_notices env ps) (\<lambda>ps1.
           seq (timeout_check env (now - start_time) ps1) (\<lambda>ps2.
           seq (sleep env (min 5 (1 + (now - start_time) / 20))) (\<lambda>_.
           seq (poll_status env thread_id run_id ps2) (\<lambda>ps3.
           poll_loop env fuel thread_id run_id start_time ps3))))))
       (seq (time_time env) (\<lambda>now.
           seq (queued_notices env ps) (\<lambda>ps1.
           seq (timeout_check env (now - start_time) ps1) (\<lambda>ps2.
           seq (sleep env (min 5 (1 + (now - start_time) / 20))) (\<lambda>_.
           seq (poll_status env thread_id run_id ps2) (\<lambda>ps3.
           poll_loop env (Suc fuel) thread_id run_id start_time ps3))))))"
      by (intro extends_seq extends_refl Suc.IH)
    moreover have "poll_loop env (Suc fuel) thread_id run_id start_time ps =
       seq (time_time env) (\<lambda>now.
           seq (queued_notices env ps) (\<lambda>ps1.
           seq (timeout_check env (now - start_time) ps1) (\<lambda>ps2.
           seq (sleep env (min 5 (1 + (now - start_time) / 20))) (\<lambda>_.
           seq (poll_status env thread_id run_id ps2) (\<lambda>ps3.
           poll_loop env fuel thread_id run_id start_time ps3)))))"
      by (subst poll_loop.simps(2)) (simp add: False del: poll_loop.simps)
    moreover have "poll_loop env (Suc (Suc fuel)) thread_id run_id start_time ps =
       seq (time_time env) (\<lambda>now.
           seq (queued_notices env ps) (\<lambda>ps1.
           seq (timeout_check env (now - start_time) ps1) (\<lambda>ps2.
           seq (sleep env (min 5 (1 + (now - start_time) / 20))) (\<lambda>_.
           seq (poll_status env thread_id run_id ps2) (\<lambda>ps3.
           poll_loop env (Suc fuel) thread_id run_id start_time ps3)))))"
      by (subst poll_loop.simps(2)) (simp add: False del: poll_loop.simps)
    ultimately show ?thesis by (simp del: poll_loop.simps)
  qed
qed

lemma extends_case_prod:
  assumes "\<And>a b. extends (f a b) (f' a b)"
  shows "extends (case_prod f x) (case_prod f' x)"
  using assms by (cases x) simp

lemma extends_world:
  assumes "\<And>v. extends (m v) (m' v)"
  shows "extends (\<lambda>w. m w w) (\<lambda>w. m' w w)"
  using assms by (auto simp: extends_def)

lemma analysis_block_more_fuel:
  "extends (analysis_block env fuel thread_id model_name)
     (analysis_block env (Suc fuel) thread_id model_name)"
proof -
  have "extends
     (seq (provider (RunsCreate thread_id (assistant_id v)) (runs_create_resp env))
       (\<lambda>(status0, run_id).
          seq (time_time env) (\<lambda>start_time.
          seq (poll_loop env fuel thread_id run_id start_time
                 \<lparr>run_status = status0, max_wait_time = 120, queued_message_sent = False,
                  queued_time_start = None\<rparr>) (\<lambda>final_status.
          seq (time_time env) (\<lambda>_.
          if final_status = ascii ''completed''
          then seq (provider (MessagesList thread_id) (messages_list_resp env)) (\<lambda>msgs.
               if assistant_texts run_id msgs \<noteq> []
               then deliver_all env (assistant_texts run_id msgs)
               else send_to_telegram env (no_answer_notice model_name))
          else send_to_telegram env (failed_notice final_status model_name))))))
     (seq (provider (RunsCreate thread_id (assistant_id v)) (runs_create_resp env))
       (\<lambda>(status0, run_id).
          seq (time_time env) (\<lambda>start_time.
          seq (poll_loop env (Suc fuel) thread_id run_id start_time
                 \<lparr>run_status = status0, max_wait_time = 120, queued_message_sent = False,
                  queued_time_start = None\<rparr>) (\<lambda>final_status.
          seq (time_time env) (\<lambda>_.
          if final_status = ascii ''completed''
          then seq (provider (MessagesList thread_id) (messages_list_resp env)) (\<lambda>msgs.
               if assistant_texts run_id msgs \<noteq> []
               then deliver_all env (assistant_texts run_id msgs)
               else send_to_telegram env (no_answer_notice model_name))
          else send_to_telegram env (failed_notice final_status model_name))))))" for v
    by (intro extends_seq extends_case_prod extends_refl poll_loop_more_fuel)
  from extends_world [of _ _, OF this]
  show ?thesis
    by (simp add: analysis_block_def [abs_def] del: poll_loop.simps)
qed

lemma image_body_more_fuel:
  "extends (stream_image_body env fuel thread_id message_str image_path)
     (stream_image_body env (Suc fuel) thread_id message_str image_path)"
  unfolding stream_image_body_def
  by (intro extends_seq extends_refl extends_try_except analysis_block_more_fuel)

lemma turn_extends:
  assumes "\<And>t. extends (body t) (body' t)"
  shows "extends (turn env group_id body) (turn env group_id body')"
  unfolding extends_def
proof (intro allI impI)
  fix w r w'
  assume a: "turn env group_id body w = (r, w') \<and> r \<noteq> Pending"
  show "turn env group_id body' w = (r, w')"
  proof (cases "\<exists>t. threads w group_id = Some t \<and> t \<noteq> [] \<and> \<not> in_progress w t")
    case True
    then obtain t where t: "threads w group_id = Some t" "t \<noteq> []" "\<not> in_progress w t" by blast
    with a have "try_finally (body t) (set_in_progress t False) w = (r, w')"
      by (simp add: turn_def)
    with a extends_try_finally [OF assms, of t "set_in_progress t False"]
    have "try_finally (body' t) (set_in_progress t False) w = (r, w')"
      by (auto simp: extends_def)
    with t show ?thesis by (simp add: turn_def)
  next
    case False
    with a show ?thesis by (auto simp: turn_def split: option.splits if_splits)
  qed
qed

lemma stream_image_response_more_fuel:
  assumes "stream_image_response env fuel group_id message_str image_base64 image_path w = Some res"
  shows "stream_image_response env (fuel + k) group_id message_str image_base64 image_path w =
           Some res"
proof (induction k)
  case 0
  show ?case using assms by simp
next
  case (Suc k)
  obtain r w' where rw:
    "turn env group_id (\<lambda>t. stream_image_body env (fuel + k) t message_str image_path) w = (r, w')"
    by (cases "turn env group_id (\<lambda>t. stream_image_body env (fuel + k) t message_str image_path) w")
  with Suc have "r \<noteq> Pending" by (auto simp: stream_image_response_def)
  with rw turn_extends [of "\<lambda>t. stream_image_body env (fuel + k) t message_str image_path"
      "\<lambda>t. stream_image_body env (Suc (fuel + k)) t message_str image_path" env group_id,
      OF image_body_more_fuel]
  have "turn env group_id (\<lambda>t. stream_image_body env (Suc (fuel + k)) t message_str image_path) w =
          (r, w')"
    by (auto simp: extends_def)
  with Suc rw show ?case by (simp add: stream_image_response_def)
qed

subsection \<open>Claims about the turns\<close>

text \<open>
  C10. When the handler's \<open>threads\<close> map has no thread for the group (no entry, or an
  empty one), \<open>stream_response\<close> and \<open>stream_image_response\<close> return at once and leave
  the world as it was: no provider call, no delivery, the history and the in-progress flags
  unchanged.
\<close>

theorem no_thread_returns_at_once:
  assumes "threads w group_id = None \<or> threads w group_id = Some []"
  shows "stream_response env group_id message_str w = Some (Returns, w) \<and>
         stream_image_response env fuel group_id message_str image_base64 image_path w =
           Some (Returns, w)"
  using assms by (auto simp: stream_response_def stream_image_response_def turn_def)

theorem no_thread_returns_at_once_witness:
  "(threads idle_world 2 = None \<or> threads idle_world 2 = Some []) \<and>
   stream_response quiet_env 2 (ascii ''hola'') idle_world = Some (Returns, idle_world) \<and>
   stream_image_response quiet_env 9 2 (ascii ''hola'') None (ascii ''a.jpg'') idle_world =
     Some (Returns, idle_world)"
  using no_thread_returns_at_once [of idle_world 2 quiet_env "ascii ''hola''" 9 None "ascii ''a.jpg''"]
  by (simp add: idle_world_simps)

text \<open>
  C1. When a run is in progress for the thread of the group, a text turn and an image turn
  do the same single thing: the busy notice is passed to the delivery callback once. The
  world afterwards is the world before with that one delivery added, so there is no
  provider call, and the thread map, the history and the in-progress flags are unchanged.
  The call returns, or raises what the callback raised.
\<close>

theorem busy_turn_only_notifies:
  assumes "threads w group_id = Some thread_id" and "thread_id \<noteq> []"
    and "in_progress_runs w thread_id = Some True"
  shows "stream_response env group_id message_str w =
           Some (case send_resp env (length (delivered w)) of
                   None \<Rightarrow> Returns | Some e \<Rightarrow> Raises e,
                 w\<lparr>delivered := delivered w @ [busy_notice]\<rparr>) \<and>
         stream_image_response env fuel group_id message_str image_base64 image_path w =
           Some (case send_resp env (length (delivered w)) of
                   None \<Rightarrow> Returns | Some e \<Rightarrow> Raises e,
                 w\<lparr>delivered := delivered w @ [busy_notice]\<rparr>)"
  using assms
  by (auto simp: stream_response_def stream_image_response_def turn_def in_progress_def seq_def
        send_to_telegram_def return_stmt_def split: option.splits)

theorem busy_turn_only_notifies_witness:
  "threads busy_world 1 = Some (ascii ''thread_1'') \<and> ascii ''thread_1'' \<noteq> [] \<and>
   in_progress_runs busy_world (ascii ''thread_1'') = Some True \<and>
   stream_response quiet_env 1 (ascii ''hola'') busy_world =
     Some (Returns, busy_world\<lparr>delivered := [busy_notice]\<rparr>) \<and>
   stream_image_response quiet_env 9 1 (ascii ''hola'') None (ascii ''a.jpg'') busy_world =
     Some (Returns, busy_world\<lparr>delivered := [busy_notice]\<rparr>)"
  using busy_turn_only_notifies [of busy_world 1 "ascii ''thread_1''" quiet_env "ascii ''hola''"
      9 None "ascii ''a.jpg''"]
  by (simp add: idle_world_simps) (simp add: busy_world_def idle_world_def quiet_env_def)

text \<open>
  C3. A turn that passes the busy check leaves the in-progress flag of its thread false
  when the call ends, however it ends (return or exception, of either kind, from the
  provider, the stream, the polling or the delivery callback). A text turn always ends; an
  image turn ends unless its polling loop never sees a terminal status.
\<close>

theorem in_progress_cleared_on_every_exit:
  assumes "threads w group_id = Some thread_id" and "thread_id \<noteq> []"
    and "\<not> in_progress w thread_id"
  shows "(\<exists>r w'. stream_response env group_id message_str w = Some (r, w') \<and>
                 in_progress_runs w' thread_id = Some False) \<and>
         (\<forall>r w'. stream_image_response env fuel group_id message_str image_base64 image_path w =
                   Some (r, w') \<longrightarrow> in_progress_runs w' thread_id = Some False)"
proof
  obtain r w' where rw: "stream_response env group_id message_str w = Some (r, w')"
    unfolding stream_response_def
    using turn_returns [of "\<lambda>t. stream_response_body env t message_str", OF np_text_body]
    by blast
  then have "in_progress_runs w' thread_id = Some False"
    unfolding stream_response_def using turn_clears [OF assms] by blast
  with rw show "\<exists>r w'. stream_response env group_id message_str w = Some (r, w') \<and>
                 in_progress_runs w' thread_id = Some False" by blast
next
  show "\<forall>r w'. stream_image_response env fuel group_id message_str image_base64 image_path w =
                   Some (r, w') \<longrightarrow> in_progress_runs w' thread_id = Some False"
    unfolding stream_image_response_def using turn_clears [OF assms] by blast
qed

theorem in_progress_cleared_on_every_exit_witness:
  "threads idle_world 1 = Some (ascii ''thread_1'') \<and> ascii ''thread_1'' \<noteq> [] \<and>
   \<not> in_progress idle_world (ascii ''thread_1'') \<and>
   (\<exists>r w'. stream_response quiet_env 1 (ascii ''hola'') idle_world = Some (r, w') \<and>
           in_progress_runs w' (ascii ''thread_1'') = Some False) \<and>
   (\<exists>w'. stream_image_response quiet_env (Suc (Suc (Suc 0))) 1 (ascii ''hola'') None
            (ascii ''a.jpg'') idle_world = Some (Returns, w') \<and>
          in_progress_runs w' (ascii ''thread_1'') = Some False)"
proof -
  have "map_option fst (stream_image_response quiet_env (Suc (Suc (Suc 0))) 1 (ascii ''hola'')
          None (ascii ''a.jpg'') idle_world) = Some Returns"
    by (simp add: turn_eval quiet_env_simps idle_world_def ascii_def cp_def)
  then obtain w' where
    "stream_image_response quiet_env (Suc (Suc (Suc 0))) 1 (ascii ''hola'') None (ascii ''a.jpg'')
       idle_world = Some (Returns, w')"
    by auto
  then show ?thesis
    using in_progress_cleared_on_every_exit [of idle_world 1 "ascii ''thread_1''" quiet_env
        "ascii ''hola''" "Suc (Suc (Suc 0))" None "ascii ''a.jpg''"]
    by (simp add: idle_world_simps)
qed



text \<open>
  C5. The history is not bounded by the turns: \<open>trim_message_history\<close> keeps the last
  twenty entries, but neither turn calls it. A text turn on a handler with an empty history
  whose stream sends twenty paragraphs leaves twenty-one entries.
\<close>

theorem history_exceeds_cap:
  "map_option (\<lambda>(r, w). length (message_history w))
     (stream_response quiet_env 1 (ascii ''hola'') idle_world) = Some 21"
  by (simp add: turn_eval quiet_env_simps idle_world_def deltas_paragraphs ascii_def cp_def)

section \<open>Properties of the session store\<close>

subsection \<open>The dictionaries after a write to all handlers\<close>

lemma del_fold:
  "foldl (clear_handler g) d bots a g' =
     (if g' = g \<and> a \<in> snd ` set bots then None else d a g')"
proof (induction bots arbitrary: d)
  case Nil
  show ?case by simp
next
  case (Cons b bots)
  show ?case
    unfolding foldl_Cons Cons.IH
    by (auto simp: clear_handler_def dict_del_def domIff)
qed

lemma set_fold:
  "foldl (sync_handler g h) d bots a g' =
     (if g' = g \<and> a \<in> snd ` set bots then Some h else d a g')"
proof (induction bots arbitrary: d)
  case Nil
  show ?case by simp
next
  case (Cons b bots)
  show ?case
    unfolding foldl_Cons Cons.IH
    by (auto simp: sync_handler_def dict_set_def)
qed

lemma store_and_sync_simps:
  "get_thread_id (store_and_sync g h m) g = Some h"
  "create_calls (store_and_sync g h m) = create_calls m"
  "thread_locks (store_and_sync g h m) = thread_locks m"
  "all_bots (store_and_sync g h m) = all_bots m"
  "threads_at (store_and_sync g h m) = threads_at m"
  "user_data (store_and_sync g h m) = user_data m"
  by (simp_all add: store_and_sync_def get_thread_id_def set_fold dict_set_def)


subsection \<open>Claims about ending a conversation and about the hint\<close>

text \<open>The definitions to unfold for running tasks on a concrete manager.\<close>

lemmas run_eval =
  set_thread_id_def step_def task_step_def new_task_def get_thread_lock_def get_thread_id_def
  store_and_sync_def sync_handler_def dict_set_def all_done_def

lemma end_conversation_active:
  assumes "is_active m g"
  shows "\<exists>m'. end_conversation g m = (True, m') \<and> get_thread_id m' g = None \<and>
           (\<forall>(bot_name, a) \<in> set (all_bots m'). dicts m' a g = None) \<and>
           user_data m' = user_data m \<and> thread_locks m' = thread_locks m \<and>
           all_bots m' = all_bots m \<and> threads_at m' = threads_at m \<and>
           create_calls m' = create_calls m \<and>
           (\<forall>a g'. g' \<noteq> g \<longrightarrow> dicts m' a g' = dicts m a g')"
  using assms
  by (auto simp: end_conversation_def is_active_def get_thread_id_def del_fold dict_del_def
        image_iff)

text \<open>
  C9. \<open>end_conversation\<close> on a group with a recorded thread returns \<open>True\<close>; afterwards
  the group has no thread in the manager's dictionary (so \<open>get_thread_id\<close> is \<open>None\<close>) nor
  in the dictionary of any registered bot's handler, the entries of the other groups are
  as before, and \<open>user_data\<close>, the locks and the bots are unchanged. On a group without a
  recorded thread it returns \<open>False\<close> and the manager is unchanged.
\<close>

theorem end_conversation_effect:
  "(is_active m g \<longrightarrow>
      (\<exists>m'. end_conversation g m = (True, m') \<and> get_thread_id m' g = None \<and>
           (\<forall>(bot_name, a) \<in> set (all_bots m'). dicts m' a g = None) \<and>
           user_data m' = user_data m \<and> thread_locks m' = thread_locks m \<and>
           all_bots m' = all_bots m \<and> threads_at m' = threads_at m \<and>
           create_calls m' = create_calls m \<and>
           (\<forall>a g'. g' \<noteq> g \<longrightarrow> dicts m' a g' = dicts m a g'))) \<and>
   (\<not> is_active m g \<longrightarrow> end_conversation g m = (False, m))"
  using end_conversation_active [of m g]
  by (auto simp: end_conversation_def is_active_def)

theorem end_conversation_effect_witness:
  "is_active active_manager 1 \<and> fst (end_conversation 1 active_manager) \<and>
   get_thread_id (snd (end_conversation 1 active_manager)) 1 = None \<and>
   dicts (snd (end_conversation 1 active_manager)) 1 1 = None \<and>
   user_data (snd (end_conversation 1 active_manager)) = user_data active_manager \<and>
   thread_locks (snd (end_conversation 1 active_manager)) = thread_locks active_manager \<and>
   \<not> is_active fresh_manager 1 \<and> end_conversation 1 fresh_manager = (False, fresh_manager)"
proof -
  have a: "is_active active_manager 1" and f: "\<not> is_active fresh_manager 1"
    and b: "all_bots active_manager = [(ascii ''Regen'', 0), (ascii ''Degen'', 1)]"
    by (simp_all add: is_active_def active_manager_def fresh_manager_def)
  show ?thesis
    using end_conversation_effect [of active_manager 1] end_conversation_effect [of fresh_manager 1]
      a f b
    by auto
qed

lemma set_thread_id_existing:
  assumes "thread_locks m g \<noteq> Some True" and "get_thread_id m g = Some h0" and "h0 \<noteq> []"
  shows "set_thread_id cr g hint m =
           (Some (Value (Some h0)), m\<lparr>thread_locks := (thread_locks m)(g \<mapsto> False)\<rparr>)"
  using assms
  by (cases "thread_locks m g") (auto simp: run_eval)

lemma set_thread_id_hint:
  assumes "thread_locks m g \<noteq> Some True"
    and "get_thread_id m g = None \<or> get_thread_id m g = Some []" and "h \<noteq> []"
  shows "set_thread_id cr g (Some h) m =
           (Some (Value (Some h)),
            (store_and_sync g h m)\<lparr>thread_locks := (thread_locks m)(g \<mapsto> False)\<rparr>)"
  using assms
  by (cases "thread_locks m g") (auto simp: run_eval)

text \<open>
  C8, as stated, fails: the re-check for an existing thread comes before the test of the
  hint. For group 1 with the thread \<^verbatim>\<open>thread_a\<close> recorded, the call with the hint
  \<^verbatim>\<open>thread_b\<close> returns \<^verbatim>\<open>thread_a\<close> and records nothing.
\<close>

theorem set_thread_id_hint_ignored:
  "fst (set_thread_id provider_ok 1 (Some (ascii ''thread_b'')) active_manager) =
     Some (Value (Some (ascii ''thread_a''))) \<and>
   get_thread_id (snd (set_thread_id provider_ok 1 (Some (ascii ''thread_b'')) active_manager)) 1 =
     Some (ascii ''thread_a'') \<and>
   ascii ''thread_a'' \<noteq> ascii ''thread_b''"
proof -
  have "set_thread_id provider_ok 1 (Some (ascii ''thread_b'')) active_manager =
          (Some (Value (Some (ascii ''thread_a''))),
           active_manager\<lparr>thread_locks := (thread_locks active_manager)(1 \<mapsto> False)\<rparr>)"
    by (rule set_thread_id_existing)
       (simp_all add: active_manager_def fresh_manager_def get_thread_id_def ascii_def)
  then show ?thesis
    by (simp add: get_thread_id_def) (simp add: active_manager_def fresh_manager_def ascii_def cp_def)
qed

text \<open>
  C8, amended. For a group whose lock is not held and a non-empty hint: if the group has
  no thread recorded, \<open>set_thread_id\<close> records the hint in the manager's dictionary and
  in the dictionary of every registered bot's handler and returns it; if the group has a
  thread recorded, it returns that thread and leaves the dictionaries as they are. In both
  cases the provider is not called, and the same call once more returns the same and
  changes nothing.
\<close>

theorem set_thread_id_with_hint:
  assumes "thread_id \<noteq> []" and "thread_locks m g \<noteq> Some True"
  shows "(get_thread_id m g = None \<or> get_thread_id m g = Some [] \<longrightarrow>
           (\<exists>m'. set_thread_id cr g (Some thread_id) m = (Some (Value (Some thread_id)), m') \<and>
                 get_thread_id m' g = Some thread_id \<and>
                 (\<forall>(bot_name, a) \<in> set (all_bots m'). dicts m' a g = Some thread_id) \<and>
                 create_calls m' = create_calls m \<and>
                 set_thread_id cr g (Some thread_id) m' = (Some (Value (Some thread_id)), m'))) \<and>
         (\<forall>existing. get_thread_id m g = Some existing \<and> existing \<noteq> [] \<longrightarrow>
           (\<exists>m'. set_thread_id cr g (Some thread_id) m = (Some (Value (Some existing)), m') \<and>
                 dicts m' = dicts m \<and> create_calls m' = create_calls m \<and>
                 set_thread_id cr g (Some thread_id) m' = (Some (Value (Some existing)), m')))"
proof (intro conjI impI allI)
  assume nh: "get_thread_id m g = None \<or> get_thread_id m g = Some []"
  let ?m' = "(store_and_sync g thread_id m)\<lparr>thread_locks := (thread_locks m)(g \<mapsto> False)\<rparr>"
  have 1: "set_thread_id cr g (Some thread_id) m = (Some (Value (Some thread_id)), ?m')"
    using assms nh by (intro set_thread_id_hint)
  have 2: "get_thread_id ?m' g = Some thread_id"
    using store_and_sync_simps(1) [of g thread_id m] by (simp add: get_thread_id_def)
  have 3: "\<forall>(bot_name, a) \<in> set (all_bots ?m'). dicts ?m' a g = Some thread_id"
    by (auto simp: store_and_sync_def set_fold image_iff)
  have 4: "create_calls ?m' = create_calls m"
    by (simp add: store_and_sync_simps)
  have "set_thread_id cr g (Some thread_id) ?m' =
          (Some (Value (Some thread_id)), ?m'\<lparr>thread_locks := (thread_locks ?m')(g \<mapsto> False)\<rparr>)"
    using 2 assms(1) by (intro set_thread_id_existing) simp_all
  then have 5: "set_thread_id cr g (Some thread_id) ?m' = (Some (Value (Some thread_id)), ?m')"
    by simp
  from 1 2 3 4 5
  show "\<exists>m'. set_thread_id cr g (Some thread_id) m = (Some (Value (Some thread_id)), m') \<and>
              get_thread_id m' g = Some thread_id \<and>
              (\<forall>(bot_name, a) \<in> set (all_bots m'). dicts m' a g = Some thread_id) \<and>
              create_calls m' = create_calls m \<and>
              set_thread_id cr g (Some thread_id) m' = (Some (Value (Some thread_id)), m')"
    by blast
next
  fix existing
  assume ex: "get_thread_id m g = Some existing \<and> existing \<noteq> []"
  let ?m' = "m\<lparr>thread_locks := (thread_locks m)(g \<mapsto> False)\<rparr>"
  have 1: "set_thread_id cr g (Some thread_id) m = (Some (Value (Some existing)), ?m')"
    using assms ex by (intro set_thread_id_existing) simp_all
  have "set_thread_id cr g (Some thread_id) ?m' =
          (Some (Value (Some existing)), ?m'\<lparr>thread_locks := (thread_locks ?m')(g \<mapsto> False)\<rparr>)"
    using ex by (intro set_thread_id_existing) (simp_all add: get_thread_id_def)
  then have 2: "set_thread_id cr g (Some thread_id) ?m' = (Some (Value (Some existing)), ?m')"
    by simp
  from 1 2
  show "\<exists>m'. set_thread_id cr g (Some thread_id) m = (Some (Value (Some existing)), m') \<and>
              dicts m' = dicts m \<and> create_calls m' = create_calls m \<and>
              set_thread_id cr g (Some thread_id) m' = (Some (Value (Some existing)), m')"
    by (intro exI [of _ ?m']) simp
qed

theorem set_thread_id_with_hint_witness:
  "ascii ''thread_b'' \<noteq> [] \<and> thread_locks fresh_manager 1 \<noteq> Some True \<and>
   get_thread_id fresh_manager 1 = None \<and>
   fst (set_thread_id provider_ok 1 (Some (ascii ''thread_b'')) fresh_manager) =
     Some (Value (Some (ascii ''thread_b''))) \<and>
   get_thread_id (snd (set_thread_id provider_ok 1 (Some (ascii ''thread_b'')) fresh_manager)) 1 =
     Some (ascii ''thread_b'') \<and>
   create_calls (snd (set_thread_id provider_ok 1 (Some (ascii ''thread_b'')) fresh_manager)) = 0"
proof -
  have h: "ascii ''thread_b'' \<noteq> []" "thread_locks fresh_manager 1 \<noteq> Some True"
    and n: "get_thread_id fresh_manager 1 = None" and c: "create_calls fresh_manager = 0"
    by (simp_all add: fresh_manager_def get_thread_id_def ascii_def)
  show ?thesis
    using set_thread_id_with_hint [OF h, of provider_ok] h n c by auto
qed

subsection \<open>Concurrent calls for one group\<close>

lemma set_pc_simps:
  "length (set_pc i q ts) = length ts"
  "i < length ts \<Longrightarrow> j < length ts \<Longrightarrow>
     task_pc (set_pc i q ts ! j) = (if j = i then q else task_pc (ts ! j))"
  "i < length ts \<Longrightarrow> j < length ts \<Longrightarrow> task_key (set_pc i q ts ! j) = task_key (ts ! j)"
  "i < length ts \<Longrightarrow> j < length ts \<Longrightarrow> task_hint (set_pc i q ts ! j) = task_hint (ts ! j)"
  by (auto simp: set_pc_def nth_list_update)

lemma same_call_set_pc: "same_call g ts \<Longrightarrow> i < length ts \<Longrightarrow> same_call g (set_pc i q ts)"
  by (simp add: same_call_def set_pc_simps)

lemma others_not_critical:
  assumes "lock_inv g m ts" and "i < length ts" and "critical (task_pc (ts ! i))"
    and "j < length ts" and "j \<noteq> i"
  shows "\<not> critical (task_pc (ts ! j))"
  using assms unfolding lock_inv_def by blast

lemma lock_inv_keep:
  assumes inv: "lock_inv g m ts" and i: "i < length ts"
    and c: "critical q = critical (task_pc (ts ! i))"
    and s: "q = Start \<longrightarrow> task_pc (ts ! i) = Start"
    and l1: "thread_locks m' g = Some True \<longleftrightarrow> thread_locks m g = Some True"
    and l2: "thread_locks m g \<noteq> None \<longrightarrow> thread_locks m' g \<noteq> None"
    and l3: "q \<noteq> Start \<longrightarrow> thread_locks m' g \<noteq> None"
  shows "lock_inv g m' (set_pc i q ts)"
proof -
  have cr: "critical (task_pc (set_pc i q ts ! j)) = critical (task_pc (ts ! j))"
    if "j < length ts" for j
    using that i c by (simp add: set_pc_simps)
  have st: "task_pc (set_pc i q ts ! j) \<noteq> Start \<longrightarrow> thread_locks m' g \<noteq> None"
    if "j < length ts" for j
  proof (cases "j = i")
    case True
    then show ?thesis using i l3 by (simp add: set_pc_simps)
  next
    case False
    then show ?thesis using inv that i l2 by (simp add: set_pc_simps lock_inv_def)
  qed
  show ?thesis
    using inv l1 unfolding lock_inv_def
    by (simp add: set_pc_simps(1) cr st cong: conj_cong)
qed

lemma lock_inv_acquire:
  assumes inv: "lock_inv g m ts" and i: "i < length ts"
    and free: "thread_locks m g = Some False" and q: "critical q"
    and l: "thread_locks m' g = Some True"
  shows "lock_inv g m' (set_pc i q ts)"
proof -
  have none: "\<not> critical (task_pc (ts ! j))" if "j < length ts" for j
    using inv free that unfolding lock_inv_def by auto
  have cr: "critical (task_pc (set_pc i q ts ! j)) \<longleftrightarrow> j = i" if "j < length ts" for j
    using that i q none by (simp add: set_pc_simps)
  show ?thesis
    unfolding lock_inv_def using i l by (auto simp: set_pc_simps(1) cr cong: conj_cong)
qed

lemma lock_inv_release:
  assumes inv: "lock_inv g m ts" and i: "i < length ts"
    and c: "critical (task_pc (ts ! i))" and q: "\<not> critical q"
    and l: "thread_locks m' g = Some False"
  shows "lock_inv g m' (set_pc i q ts)"
proof -
  have cr: "\<not> critical (task_pc (set_pc i q ts ! j))" if "j < length ts" for j
    using that i q others_not_critical [OF inv i c that] by (simp add: set_pc_simps)
  show ?thesis
    unfolding lock_inv_def using l by (auto simp: set_pc_simps(1) cr cong: conj_cong)
qed


lemma step_set_pc:
  assumes "i < length ts" and "task_step cr (ts ! i) m = ((ts ! i)\<lparr>task_pc := q\<rparr>, m')"
  shows "step cr i (m, ts) = (m', set_pc i q ts)"
  using assms by (simp add: step_def set_pc_def)

lemma race_inv_step:
  assumes "race_inv cr g c0 h0 s"
  shows "race_inv cr g c0 h0 (step cr i s)"
proof (cases s)
  case (Pair m ts)
  show ?thesis
  proof (cases "i < length ts")
    case False
    with assms Pair show ?thesis by (simp add: step_def)
  next
    case True
    from assms Pair have cr: "cr c0 = Inr h0" and h0: "h0 \<noteq> []" and bots: "all_bots m \<noteq> []"
      and sc: "same_call g ts" and li: "lock_inv g m ts" and ph: "phase_inv g c0 h0 m ts"
      by (simp_all add: race_inv_def)
    from sc True have key: "task_key (ts ! i) = g" and hint: "task_hint (ts ! i) = None"
      by (auto simp: same_call_def)
    have lk: "thread_locks m g \<noteq> None" if "task_pc (ts ! i) \<noteq> Start"
      using li True that unfolding lock_inv_def by blast
    have goal: "race_inv cr g c0 h0 (step cr i s)"
      if "task_step cr (ts ! i) m = ((ts ! i)\<lparr>task_pc := q\<rparr>, m')"
        and "all_bots m' = all_bots m" and "lock_inv g m' (set_pc i q ts)"
        and "phase_inv g c0 h0 m' (set_pc i q ts)" for q m'
      using that cr h0 bots same_call_set_pc [OF sc True] step_set_pc [OF True that(1)]
      by (simp add: Pair race_inv_def)
    show ?thesis
    proof (cases "task_pc (ts ! i)")
      case Start
      have 1: "task_step cr (ts ! i) m = ((ts ! i)\<lparr>task_pc := WaitLock\<rparr>, get_thread_lock g m)"
        using Start key by (simp add: task_step_def)
      have 2: "lock_inv g (get_thread_lock g m) (set_pc i WaitLock ts)"
        by (rule lock_inv_keep [OF li True]) (auto simp: Start get_thread_lock_def)
      have 3: "phase_inv g c0 h0 (get_thread_lock g m) (set_pc i WaitLock ts)"
        using ph True Start unfolding phase_inv_def
        by (auto simp: set_pc_simps get_thread_lock_def no_handle_def get_thread_id_def
              cong: conj_cong)
      show ?thesis by (rule goal [OF 1 _ 2 3]) (simp add: get_thread_lock_def)
    next
      case WaitLock
      show ?thesis
      proof (cases "thread_locks m g = Some False")
        case False
        then have "step cr i s = s"
          using True WaitLock key by (simp add: Pair step_def task_step_def)
        with assms show ?thesis by simp
      next
        case free: True
        let ?m' = "m\<lparr>thread_locks := (thread_locks m)(g \<mapsto> True)\<rparr>"
        have 1: "task_step cr (ts ! i) m = ((ts ! i)\<lparr>task_pc := Locked\<rparr>, ?m')"
          using WaitLock key free by (simp add: task_step_def)
        have 2: "lock_inv g ?m' (set_pc i Locked ts)"
          by (rule lock_inv_acquire [OF li True free]) simp_all
        have 3: "phase_inv g c0 h0 ?m' (set_pc i Locked ts)"
          using ph True free unfolding phase_inv_def
          by (auto simp: set_pc_simps no_handle_def get_thread_id_def cong: conj_cong)
        show ?thesis by (rule goal [OF 1 _ 2 3]) simp
      qed
    next
      case Locked
      have nh: "no_handle m g \<or> get_thread_id m g = Some h0"
        using ph unfolding phase_inv_def by auto
      show ?thesis
      proof (cases "no_handle m g")
        case nh: True
        have 1: "task_step cr (ts ! i) m = ((ts ! i)\<lparr>task_pc := Create\<rparr>, m)"
          using Locked key hint nh by (auto simp: task_step_def no_handle_def)
        have 2: "lock_inv g m (set_pc i Create ts)"
          by (rule lock_inv_keep [OF li True]) (use lk in \<open>auto simp: Locked\<close>)
        have 3: "phase_inv g c0 h0 m (set_pc i Create ts)"
          using ph True Locked nh h0 unfolding phase_inv_def
          by (auto simp: set_pc_simps no_handle_def cong: conj_cong)
        show ?thesis by (rule goal [OF 1 _ 2 3]) simp
      next
        case False
        with nh have ex: "get_thread_id m g = Some h0" by simp
        have 1: "task_step cr (ts ! i) m = ((ts ! i)\<lparr>task_pc := Release (Value (Some h0))\<rparr>, m)"
          using Locked key ex h0 by (simp add: task_step_def)
        have 2: "lock_inv g m (set_pc i (Release (Value (Some h0))) ts)"
          by (rule lock_inv_keep [OF li True]) (use lk in \<open>auto simp: Locked\<close>)
        have 3: "phase_inv g c0 h0 m (set_pc i (Release (Value (Some h0))) ts)"
          using ph True Locked ex h0 unfolding phase_inv_def
          by (auto simp: set_pc_simps no_handle_def cong: conj_cong)
        show ?thesis by (rule goal [OF 1 _ 2 3]) simp
      qed
    next
      case Create
      have p0: "no_handle m g" "create_calls m = c0"
        using ph True Create unfolding phase_inv_def by auto
      have held: "thread_locks m g = Some True"
        using li True Create unfolding lock_inv_def by auto
      have others: "task_pc (ts ! j) \<in> {Start, WaitLock}" if "j < length ts" "j \<noteq> i" for j
      proof -
        have "\<not> critical (task_pc (ts ! j))"
          using others_not_critical [OF li True _ that] Create by simp
        moreover have "task_pc (ts ! j) \<in> {Start, WaitLock, Locked, Create}"
          using ph True Create that unfolding phase_inv_def by auto
        ultimately show ?thesis by auto
      qed
      let ?m' = "m\<lparr>create_calls := Suc (create_calls m)\<rparr>"
      obtain b bs where bl: "all_bots m = b # bs" using bots by (cases "all_bots m") auto
      have 1: "task_step cr (ts ! i) m = ((ts ! i)\<lparr>task_pc := Store h0\<rparr>, ?m')"
        using Create p0 cr h0 bl by (simp add: task_step_def)
      have 2: "lock_inv g ?m' (set_pc i (Store h0) ts)"
        by (rule lock_inv_keep [OF li True]) (use lk in \<open>auto simp: Create\<close>)
      have 3: "phase_inv g c0 h0 ?m' (set_pc i (Store h0) ts)"
        using p0 True held others unfolding phase_inv_def
        by (auto simp: set_pc_simps no_handle_def get_thread_id_def cong: conj_cong)
      show ?thesis by (rule goal [OF 1 _ 2 3]) simp
    next
      case (Store h)
      have p1: "h = h0" "create_calls m = Suc c0"
        using ph True Store unfolding phase_inv_def by auto
      have others: "task_pc (ts ! j) \<in> {Start, WaitLock}" if "j < length ts" "j \<noteq> i" for j
      proof -
        have "\<not> critical (task_pc (ts ! j))"
          using others_not_critical [OF li True _ that] Store by simp
        moreover have "task_pc (ts ! j) \<in> {Start, WaitLock, Store h0}"
          using ph True Store that unfolding phase_inv_def by auto
        ultimately show ?thesis by auto
      qed
      let ?m' = "store_and_sync g h0 m"
      have 1: "task_step cr (ts ! i) m = ((ts ! i)\<lparr>task_pc := Release (Value (Some h0))\<rparr>, ?m')"
        using Store p1 key by (simp add: task_step_def)
      have 2: "lock_inv g ?m' (set_pc i (Release (Value (Some h0))) ts)"
        by (rule lock_inv_keep [OF li True]) (use lk in \<open>auto simp: Store store_and_sync_simps\<close>)
      have 3: "phase_inv g c0 h0 ?m' (set_pc i (Release (Value (Some h0))) ts)"
        using p1 True others unfolding phase_inv_def
        by (auto simp: set_pc_simps store_and_sync_simps cong: conj_cong)
      show ?thesis by (rule goal [OF 1 _ 2 3]) (simp add: store_and_sync_simps)
    next
      case (Release r)
      have p2: "r = Value (Some h0)" "get_thread_id m g = Some h0" "create_calls m = Suc c0"
        and allp: "\<forall>j<length ts. task_pc (ts ! j) \<in>
           {Start, WaitLock, Locked, Release (Value (Some h0)), Done (Value (Some h0))}"
        using ph True Release unfolding phase_inv_def by auto
      let ?m' = "m\<lparr>thread_locks := (thread_locks m)(g \<mapsto> False)\<rparr>"
      have 1: "task_step cr (ts ! i) m = ((ts ! i)\<lparr>task_pc := Done r\<rparr>, ?m')"
        using Release key by (simp add: task_step_def)
      have 2: "lock_inv g ?m' (set_pc i (Done r) ts)"
        by (rule lock_inv_release [OF li True]) (simp_all add: Release)
      have 3: "phase_inv g c0 h0 ?m' (set_pc i (Done r) ts)"
        using p2 True allp unfolding phase_inv_def
        by (auto simp: set_pc_simps get_thread_id_def cong: conj_cong)
      show ?thesis by (rule goal [OF 1 _ 2 3]) simp
    next
      case (Done x7)
      then show ?thesis using assms True Pair
        by (simp add: step_def task_step_def)
    qed
  qed
qed

lemma race_inv_run:
  "race_inv cr g c0 h0 s \<Longrightarrow> race_inv cr g c0 h0 (run cr sched s)"
  by (induction sched arbitrary: s) (simp_all add: race_inv_step)

lemma run_append: "run cr (xs @ ys) s = run cr ys (run cr xs s)"
  by (induction xs arbitrary: s) simp_all

lemma race_inv_init:
  assumes "no_handle m0 g" and "thread_locks m0 g \<noteq> Some True" and "all_bots m0 \<noteq> []"
    and "cr (create_calls m0) = Inr h0" and "h0 \<noteq> []"
  shows "race_inv cr g (create_calls m0) h0 (m0, replicate n (new_task g None))"
  using assms
  by (auto simp: race_inv_def same_call_def lock_inv_def phase_inv_def new_task_def)

lemma all_done_nth: "all_done ts \<longleftrightarrow> (\<forall>i<length ts. \<exists>r. task_pc (ts ! i) = Done r)"
proof -
  have "(case p of Done r \<Rightarrow> True | _ \<Rightarrow> False) \<longleftrightarrow> (\<exists>r. p = Done r)" for p
    by (cases p) auto
  then show ?thesis by (simp add: all_done_def list_all_length)
qed

lemma length_step: "length (snd (step cr i s)) = length (snd s)"
  by (cases s) (simp add: step_def split: prod.splits)

lemma length_run: "length (snd (run cr sched s)) = length (snd s)"
  by (induction sched arbitrary: s) (simp_all add: length_step)

lemma race_inv_final:
  assumes inv: "race_inv cr g c0 h0 (m, ts)" and d: "all_done ts" and n: "ts \<noteq> []"
  shows "create_calls m = Suc c0 \<and> get_thread_id m g = Some h0 \<and>
         (\<forall>t\<in>set ts. task_pc t = Done (Value (Some h0)))"
proof -
  from n have 0: "0 < length ts" by simp
  from d 0 obtain r where r: "task_pc (ts ! 0) = Done r" by (auto simp: all_done_nth)
  from inv have ph: "phase_inv g c0 h0 m ts" by (simp add: race_inv_def)
  have p2: "get_thread_id m g = Some h0 \<and> create_calls m = Suc c0 \<and>
      (\<forall>i<length ts. task_pc (ts ! i) \<in>
         {Start, WaitLock, Locked, Release (Value (Some h0)), Done (Value (Some h0))})"
    using ph 0 r unfolding phase_inv_def by auto
  have "task_pc (ts ! i) = Done (Value (Some h0))" if "i < length ts" for i
  proof -
    from d that obtain r' where "task_pc (ts ! i) = Done r'" by (auto simp: all_done_nth)
    moreover from p2 that have "task_pc (ts ! i) \<in>
         {Start, WaitLock, Locked, Release (Value (Some h0)), Done (Value (Some h0))}" by blast
    ultimately show ?thesis by auto
  qed
  then have "\<forall>t\<in>set ts. task_pc t = Done (Value (Some h0))"
    by (auto simp: in_set_conv_nth)
  with p2 show ?thesis by simp
qed

lemma task_step_cases:
  "(task_step cr t m = (t, m) \<and>
      ((\<exists>r. task_pc t = Done r) \<or>
       (task_pc t = WaitLock \<and> thread_locks m (task_key t) \<noteq> Some False))) \<or>
   (\<exists>q m'. task_step cr t m = (t\<lparr>task_pc := q\<rparr>, m') \<and> weight q < weight (task_pc t))"
  by (cases "task_pc t"; cases "task_hint t")
     (auto simp: task_step_def split: option.splits list.splits sum.splits exn.splits)

lemma total_weight_set_pc:
  assumes "i < length ts" and "weight q < weight (task_pc (ts ! i))"
  shows "total_weight (set_pc i q ts) < total_weight ts"
proof -
  let ?ws = "map (\<lambda>t. weight (task_pc t)) ts"
  have "weight (task_pc (ts ! i)) \<le> sum_list ?ws"
    using elem_le_sum_list [of i ?ws] assms(1) by simp
  moreover have "total_weight (set_pc i q ts) = sum_list ?ws + weight q - weight (task_pc (ts ! i))"
    using assms(1) by (simp add: total_weight_def set_pc_def map_update sum_list_update)
  ultimately show ?thesis using assms(2) by (simp add: total_weight_def)
qed

lemma race_progress:
  assumes inv: "race_inv cr g c0 h0 (m, ts)" and nd: "\<not> all_done ts"
  shows "\<exists>i. total_weight (snd (step cr i (m, ts))) < total_weight ts"
proof -
  from inv have sc: "same_call g ts" and li: "lock_inv g m ts" by (simp_all add: race_inv_def)
  have enabled: "\<exists>i<length ts. (\<forall>r. task_pc (ts ! i) \<noteq> Done r) \<and>
      (task_pc (ts ! i) = WaitLock \<longrightarrow> thread_locks m g = Some False)"
  proof (cases "\<exists>j<length ts. critical (task_pc (ts ! j))")
    case True
    then obtain j where "j < length ts" "critical (task_pc (ts ! j))" by blast
    then show ?thesis by (intro exI [of _ j]) auto
  next
    case False
    then have nl: "thread_locks m g \<noteq> Some True" using li unfolding lock_inv_def by simp
    from nd obtain i where i: "i < length ts" "\<forall>r. task_pc (ts ! i) \<noteq> Done r"
      by (auto simp: all_done_nth)
    have "thread_locks m g = Some False" if "task_pc (ts ! i) = WaitLock"
    proof -
      have "thread_locks m g \<noteq> None" using li i(1) that unfolding lock_inv_def by auto
      with nl show ?thesis by auto
    qed
    with i show ?thesis by blast
  qed
  then obtain i where i: "i < length ts" "\<forall>r. task_pc (ts ! i) \<noteq> Done r"
    "task_pc (ts ! i) = WaitLock \<longrightarrow> thread_locks m g = Some False" by blast
  from sc i(1) have key: "task_key (ts ! i) = g" by (simp add: same_call_def)
  from task_step_cases [of cr "ts ! i" m] i key
  obtain q m' where q: "task_step cr (ts ! i) m = ((ts ! i)\<lparr>task_pc := q\<rparr>, m')"
    "weight q < weight (task_pc (ts ! i))" by auto
  have "step cr i (m, ts) = (m', set_pc i q ts)"
    by (rule step_set_pc [OF i(1) q(1)])
  then show ?thesis using total_weight_set_pc [OF i(1) q(2)] by (metis snd_conv)
qed

lemma race_completes:
  assumes "race_inv cr g c0 h0 s"
  shows "\<exists>more. all_done (snd (run cr more s))"
  using assms
proof (induction "total_weight (snd s)" arbitrary: s rule: less_induct)
  case less
  obtain m ts where s: "s = (m, ts)" by (cases s)
  show ?case
  proof (cases "all_done ts")
    case True
    then show ?thesis using s by (intro exI [of _ "[]"]) simp
  next
    case False
    with less.prems s obtain i where
      "total_weight (snd (step cr i s)) < total_weight (snd s)"
      using race_progress by fastforce
    moreover have "race_inv cr g c0 h0 (step cr i s)"
      using less.prems by (rule race_inv_step)
    ultimately obtain more where "all_done (snd (run cr more (step cr i s)))"
      using less.hyps by blast
    then show ?thesis by (intro exI [of _ "i # more"]) simp
  qed
qed


text \<open>
  C2, as stated, fails when the provider fails: a failed creation is not remembered. With
  a provider whose first \<^verbatim>\<open>threads.create()\<close> raises, the first of two calls for group 1
  returns \<^verbatim>\<open>None\<close>, and the second one calls the provider again and returns the new
  thread: the two calls do not return the same handle.
\<close>

theorem second_arrival_retries_after_failure:
  "map task_pc (snd (run provider_flaky one_by_one
      (fresh_manager, [new_task 1 None, new_task 1 None]))) =
     [Done (Value None), Done (Value (Some (ascii ''thread_b'')))] \<and>
   create_calls (fst (run provider_flaky one_by_one
      (fresh_manager, [new_task 1 None, new_task 1 None]))) = 2"
  by (simp add: run_eval one_by_one_def fresh_manager_def provider_flaky_def ascii_def cp_def)

text \<open>
  C2, amended. Let a group have no thread recorded and its lock not held, let a bot be
  registered, and let the provider's next \<^verbatim>\<open>threads.create()\<close> return a thread with a
  non-empty id \<open>h0\<close>. Then for \<open>n > 0\<close> calls of \<open>set_thread_id\<close> for the group without a
  hint, whatever the order in which the event loop runs their steps: when all calls are
  done, the provider has been called exactly once, the group's thread is \<open>h0\<close>, and every
  call has returned \<open>h0\<close>; and every run can be continued until all calls are done (no
  call waits for the lock for ever).
\<close>

theorem concurrent_resolution_creates_one_thread:
  assumes "no_handle m0 g" and "thread_locks m0 g \<noteq> Some True" and "all_bots m0 \<noteq> []"
    and "cr (create_calls m0) = Inr h0" and "h0 \<noteq> []" and "0 < n"
  shows "(\<forall>sched m ts. run cr sched (m0, replicate n (new_task g None)) = (m, ts) \<and> all_done ts \<longrightarrow>
            create_calls m = Suc (create_calls m0) \<and> get_thread_id m g = Some h0 \<and>
            (\<forall>t\<in>set ts. task_pc t = Done (Value (Some h0)))) \<and>
         (\<forall>sched. \<exists>more.
            all_done (snd (run cr (sched @ more) (m0, replicate n (new_task g None)))))"
proof -
  let ?s0 = "(m0, replicate n (new_task g None))"
  have inv0: "race_inv cr g (create_calls m0) h0 ?s0"
    using assms by (intro race_inv_init)
  have safe: "create_calls m = Suc (create_calls m0) \<and> get_thread_id m g = Some h0 \<and>
            (\<forall>t\<in>set ts. task_pc t = Done (Value (Some h0)))"
    if a: "run cr sched ?s0 = (m, ts) \<and> all_done ts" for sched m ts
  proof -
    have inv: "race_inv cr g (create_calls m0) h0 (m, ts)"
      using race_inv_run [OF inv0, of sched] a by simp
    have "length ts = n"
      using length_run [of cr sched ?s0] a by simp
    then have "ts \<noteq> []" using assms(6) by auto
    from race_inv_final [OF inv _ this] a show ?thesis by simp
  qed
  have live: "\<exists>more. all_done (snd (run cr (sched @ more) ?s0))" for sched
  proof -
    have "race_inv cr g (create_calls m0) h0 (run cr sched ?s0)"
      using inv0 by (rule race_inv_run)
    then obtain more where "all_done (snd (run cr more (run cr sched ?s0)))"
      using race_completes by blast
    then show ?thesis by (auto simp: run_append)
  qed
  from safe live show ?thesis by blast
qed

theorem concurrent_resolution_creates_one_thread_witness:
  "no_handle fresh_manager 1 \<and> thread_locks fresh_manager 1 \<noteq> Some True \<and>
   all_bots fresh_manager \<noteq> [] \<and>
   provider_ok (create_calls fresh_manager) = Inr (ascii ''thread_a'') \<and>
   ascii ''thread_a'' \<noteq> [] \<and> 0 < Suc (Suc (Suc 0)) \<and>
   all_done (snd (run provider_ok interleaved
     (fresh_manager, replicate (Suc (Suc (Suc 0))) (new_task 1 None)))) \<and>
   create_calls (fst (run provider_ok interleaved
     (fresh_manager, replicate (Suc (Suc (Suc 0))) (new_task 1 None)))) = Suc 0 \<and>
   map task_pc (snd (run provider_ok interleaved
     (fresh_manager, replicate (Suc (Suc (Suc 0))) (new_task 1 None)))) =
     [Done (Value (Some (ascii ''thread_a''))), Done (Value (Some (ascii ''thread_a''))),
      Done (Value (Some (ascii ''thread_a'')))]"
proof -
  let ?r = "run provider_ok interleaved
     (fresh_manager, replicate (Suc (Suc (Suc 0))) (new_task 1 None))"
  have h: "no_handle fresh_manager 1" "thread_locks fresh_manager 1 \<noteq> Some True"
    "all_bots fresh_manager \<noteq> []"
    "provider_ok (create_calls fresh_manager) = Inr (ascii ''thread_a'')"
    "ascii ''thread_a'' \<noteq> []" "0 < Suc (Suc (Suc 0))"
    by (simp_all add: fresh_manager_def no_handle_def get_thread_id_def provider_ok_def
          ascii_def cp_def)
  have d: "all_done (snd ?r)" and l: "length (snd ?r) = Suc (Suc (Suc 0))"
    by (simp_all add: run_eval interleaved_def fresh_manager_def provider_ok_def ascii_def
          cp_def)
  from concurrent_resolution_creates_one_thread [of fresh_manager 1 provider_ok
      "ascii ''thread_a''" "Suc (Suc (Suc 0))"] h d
  have "create_calls (fst ?r) = Suc (create_calls fresh_manager) \<and>
        (\<forall>t\<in>set (snd ?r). task_pc t = Done (Value (Some (ascii ''thread_a''))))"
    by (metis prod.collapse)
  moreover have "create_calls fresh_manager = 0" by (simp add: fresh_manager_def)
  moreover have "map task_pc ts = [p, p, p]"
    if "length ts = Suc (Suc (Suc 0))" "\<forall>t\<in>set ts. task_pc t = p" for ts :: "task list" and p
    using that by (cases ts; cases "tl ts"; cases "tl (tl ts)") auto
  ultimately show ?thesis using h d l by simp
qed

end
